theory Spec2Isabelle
  imports Main
begin

section \<open>Python strings\<close>

text \<open>
  Three kinds of text occur in \<^verbatim>\<open>miro-svg-dl.py\<close>.
  Header values are the Latin-1 strings the HTTP library delivers: they are
  modelled by \<^typ>\<open>string\<close>, one \<^typ>\<open>char\<close> per code point below 256.
  A decoded response body (\<^verbatim>\<open>resp.text\<close>) is a sequence of Unicode code
  points, modelled by \<^typ>\<open>nat list\<close>, because trimming depends on which code
  points are white space. Identifiers, cursors and URLs are only compared,
  split at a question mark and concatenated; they are modelled by \<^typ>\<open>string\<close>.
\<close>

type_synonym ustring = "nat list"

definition ustr :: "string \<Rightarrow> ustring" where
  "ustr s = map of_char s"

text \<open>\<^verbatim>\<open>s.startswith(p)\<close>\<close>

fun startswith :: "'a list \<Rightarrow> 'a list \<Rightarrow> bool" where
  "startswith s [] = True"
| "startswith [] (p # ps) = False"
| "startswith (c # cs) (p # ps) = (c = p \<and> startswith cs ps)"

text \<open>\<^verbatim>\<open>s.endswith(p)\<close>\<close>

definition endswith :: "'a list \<Rightarrow> 'a list \<Rightarrow> bool" where
  "endswith s p = startswith (rev s) (rev p)"

text \<open>\<^verbatim>\<open>p in s\<close> for strings\<close>

fun contains :: "'a list \<Rightarrow> 'a list \<Rightarrow> bool" where
  "contains p [] = (p = [])"
| "contains p (c # cs) = (startswith (c # cs) p \<or> contains p cs)"

text \<open>
  \<^verbatim>\<open>s.strip(chars)\<close> removes, at both ends, the characters of a class;
  \<^verbatim>\<open>lstrip\<close> removes them at the front only.
\<close>

definition lstrip_by :: "('a \<Rightarrow> bool) \<Rightarrow> 'a list \<Rightarrow> 'a list" where
  "lstrip_by P s = dropWhile P s"

definition strip_by :: "('a \<Rightarrow> bool) \<Rightarrow> 'a list \<Rightarrow> 'a list" where
  "strip_by P s = rev (dropWhile P (rev (dropWhile P s)))"

text \<open>
  The code points for which Python's \<^verbatim>\<open>str.isspace\<close> holds; \<^verbatim>\<open>strip()\<close>
  without an argument removes exactly these.
\<close>

definition py_isspace :: "nat \<Rightarrow> bool" where
  "py_isspace c =
     ((9 \<le> c \<and> c \<le> 13) \<or> (28 \<le> c \<and> c \<le> 32) \<or> c = 133 \<or> c = 160 \<or> c = 5760
      \<or> (8192 \<le> c \<and> c \<le> 8202) \<or> c = 8232 \<or> c = 8233 \<or> c = 8239 \<or> c = 8287
      \<or> c = 12288)"

definition isspace_char :: "char \<Rightarrow> bool" where
  "isspace_char c = py_isspace (of_char c)"

text \<open>\<^verbatim>\<open>str.lower()\<close> on a Latin-1 string works character by character.\<close>

definition lower_char :: "char \<Rightarrow> char" where
  "lower_char c =
     (let n = (of_char c :: nat) in
      if (65 \<le> n \<and> n \<le> 90) \<or> (192 \<le> n \<and> n \<le> 222 \<and> n \<noteq> 215)
      then char_of (n + 32) else c)"

definition lower :: "string \<Rightarrow> string" where
  "lower s = map lower_char s"

text \<open>\<^verbatim>\<open>str(n)\<close> for a non-negative integer\<close>

definition digit_char :: "nat \<Rightarrow> char" where
  "digit_char d = char_of (48 + d)"

fun str_nat :: "nat \<Rightarrow> string" where
  "str_nat n = (if n < 10 then [digit_char n] else str_nat (n div 10) @ [digit_char (n mod 10)])"

text \<open>\<^verbatim>\<open>s.rfind(sep)\<close> and the first part of \<^verbatim>\<open>s.rsplit(sep, 1)\<close>\<close>

fun rfind :: "'a list \<Rightarrow> 'a list \<Rightarrow> nat option" where
  "rfind sep [] = (if sep = [] then Some 0 else None)"
| "rfind sep (c # cs) =
     (case rfind sep cs of
        Some i \<Rightarrow> Some (Suc i)
      | None \<Rightarrow> if startswith (c # cs) sep then Some 0 else None)"

definition rsplit_head :: "'a list \<Rightarrow> 'a list \<Rightarrow> 'a list" where
  "rsplit_head sep s = (case rfind sep s of Some i \<Rightarrow> take i s | None \<Rightarrow> s)"

section \<open>Filename sanitization (lines 181 to 190)\<close>

text \<open>The character class of the regular expression at line 183.\<close>

definition illegal_char :: "char \<Rightarrow> bool" where
  "illegal_char c =
     (c = CHR ''<'' \<or> c = CHR ''>'' \<or> c = CHR '':'' \<or> c = CHR 0x22 \<or> c = CHR ''/''
      \<or> c = CHR 0x5C \<or> c = CHR ''|'' \<or> c = CHR ''?'' \<or> c = CHR ''*'')"

definition replace_illegal :: "string \<Rightarrow> string" where
  "replace_illegal s = map (\<lambda>c. if illegal_char c then CHR ''_'' else c) s"

definition dot_or_space :: "char \<Rightarrow> bool" where
  "dot_or_space c = (c = CHR ''.'' \<or> c = CHR '' '')"

definition sanitize :: "string \<Rightarrow> string" where
  "sanitize original_filename =
     (let safe_filename = replace_illegal original_filename;
          safe_filename = strip_by dot_or_space safe_filename
      in if \<not> endswith (lower safe_filename) ''.svg''
         then safe_filename @ ''.svg'' else safe_filename)"

section \<open>The remote side, the host and the state of a run\<close>

text \<open>
  An element of a listing page, as far as the script reads it. Line 108 calls
  \<^verbatim>\<open>item.get("data", {}).get("imageUrl", "")\<close> and line 109
  \<^verbatim>\<open>item.get("id", "unknown")\<close>; line 193 reads \<^verbatim>\<open>item['id']\<close>.
  \<^item> \<open>NotAnObject\<close>: the element is not a JSON object, so \<^verbatim>\<open>item.get\<close> raises.
  \<^item> \<open>Item i d\<close>: an object; \<open>i\<close> is the text of its identifier when it has
    one, \<open>d\<close> its \<^verbatim>\<open>data\<close> member.
  \<^item> \<open>NoData\<close>: no \<^verbatim>\<open>data\<close> member; \<open>BadData\<close>: a member that is not an
    object (JSON null included), on which \<^verbatim>\<open>.get\<close> raises; \<open>Data u\<close>: an
    object with the \<^verbatim>\<open>imageUrl\<close> member \<open>u\<close>.
  \<^item> \<open>NoUrl\<close>: no member, or a value that is not a string and counts as
    false; \<open>Url s\<close>: a string; \<open>BadUrl\<close>: a value that counts as true and is
    not a string, on which \<^verbatim>\<open>src.split\<close> raises at line 119.
\<close>

datatype url_field = NoUrl | Url string | BadUrl

datatype data_field = NoData | BadData | Data url_field

datatype item = NotAnObject | Item "string option" data_field

text \<open>The decoded JSON of a listing response: \<^verbatim>\<open>data["data"]\<close> and \<^verbatim>\<open>data["cursor"]\<close>.\<close>

record page =
  page_data :: "item list"
  page_cursor :: "string option"

text \<open>
  What the script reads of a response. \<open>body_json\<close> is \<open>None\<close> when the body
  is not JSON, so that \<^verbatim>\<open>resp.json()\<close> raises.
\<close>

record response =
  status_code :: nat
  content_type_header :: "string option"
  content_disposition_header :: "string option"
  body_text :: ustring
  body_content :: string
  body_json :: "page option"

datatype request = GET string | HEAD string

text \<open>\<open>Failed\<close>: the HTTP library raised instead of returning a response.\<close>

datatype reply = Failed | Reply response

text \<open>
  The remote side answers a request knowing every request of the run so far:
  its argument is the list of requests issued, the current one first. Headers,
  time-outs and the pauses between requests are not modelled.
\<close>

type_synonym remote = "request list \<Rightarrow> reply"

text \<open>
  The exceptions of a run. \<open>PrintFailed\<close> stands for the error \<^verbatim>\<open>print\<close>
  raises when standard output cannot take a line (\<^verbatim>\<open>UnicodeEncodeError\<close>),
  \<open>OSError\<close> for the one \<^verbatim>\<open>dest.exists()\<close> raises.
\<close>

datatype error =
    RuntimeError nat string ustring
  | RequestException
  | JSONDecodeError
  | KeyError
  | AttributeError
  | PrintFailed
  | OSError

text \<open>
  How a loop ends: it ran to its end, an exception left it, or the model's
  bound on the number of listing pages was reached.
\<close>

datatype outcome = Finished | Raised error | Diverged

text \<open>The lines the script prints, by the source line that prints them.\<close>

datatype log_line =
    Scanning string
  | Found string string string
  | Trying string
  | Status nat string
  | FoundSvg
  | ContentPreview ustring
  | ProbeError
  | NoSvg
  | OriginalFilename string
  | UsingItemId
  | ConflictResolved string
  | Saved string
  | FailedToDownload string
  | TotalFound string nat
  | Done nat
  | KeptOriginal nat
  | UsedGenerated nat

text \<open>
  The machine the script runs on.
  \<^item> \<open>console l\<close>: standard output can take the line \<open>l\<close>; when it cannot,
    \<^verbatim>\<open>print\<close> raises.
  \<^item> \<open>stat_ok p\<close>: \<^verbatim>\<open>exists()\<close> on the path \<open>p\<close> returns; when it does not
    (a name that is too long, for one), it raises.
  \<^item> \<open>write_ok fs p c\<close>: writing the content \<open>c\<close> to the path \<open>p\<close> of a
    directory holding \<open>fs\<close> succeeds; when it does not (a path into a
    directory that is missing, for one), \<^verbatim>\<open>write_bytes\<close> raises and the
    directory is as before.
\<close>

record host =
  console :: "log_line \<Rightarrow> bool"
  stat_ok :: "string \<Rightarrow> bool"
  write_ok :: "(string \<times> string) list \<Rightarrow> string \<Rightarrow> string \<Rightarrow> bool"

text \<open>
  The state of a run: the requests issued (newest first), the files of the
  output directory by their path below it, with their contents, the lines
  printed (newest first), the counters of \<^verbatim>\<open>main\<close>, and the host, which
  never changes.
\<close>

record state =
  trace :: "request list"
  files :: "(string \<times> string) list"
  printed :: "log_line list"
  total_saved :: nat
  files_with_original_names :: nat
  files_with_generated_names :: nat
  item_count :: nat
  host :: host

record args =
  board :: string
  token :: string
  out :: string
  include_docs :: bool
  quiet :: bool

definition send :: "remote \<Rightarrow> request \<Rightarrow> state \<Rightarrow> reply \<times> state" where
  "send remote req st = (remote (req # trace st), st\<lparr>trace := req # trace st\<rparr>)"

text \<open>
  \<open>print_line\<close> is a line on the standard error stream, which escapes what
  it cannot encode, and the effect of a \<^verbatim>\<open>print\<close> that succeeded.
  \<open>try_print\<close> is \<^verbatim>\<open>print\<close> on standard output: \<open>None\<close> when it raises.
  \<open>print_unless q\<close> is \<^verbatim>\<open>if not args.quiet: print(...)\<close>.
\<close>

definition print_line :: "log_line \<Rightarrow> state \<Rightarrow> state" where
  "print_line l st = st\<lparr>printed := l # printed st\<rparr>"

definition try_print :: "log_line \<Rightarrow> state \<Rightarrow> state option" where
  "try_print l st = (if console (host st) l then Some (print_line l st) else None)"

definition print_unless :: "bool \<Rightarrow> log_line \<Rightarrow> state \<Rightarrow> state option" where
  "print_unless q l st = (if q then Some st else try_print l st)"

section \<open>The item enumerator (lines 24 to 47)\<close>

definition API_ROOT :: string where
  "API_ROOT = ''https://api.miro.com/v2''"

definition first_url :: "string \<Rightarrow> string \<Rightarrow> string" where
  "first_url board_id item_type =
     API_ROOT @ ''/boards/'' @ board_id @ ''/items?type='' @ item_type @ ''&limit=50''"

definition cursor_url :: "string \<Rightarrow> string \<Rightarrow> string" where
  "cursor_url board_id cursor = API_ROOT @ ''/boards/'' @ board_id @ ''/items?cursor='' @ cursor"

text \<open>
  One turn of the \<^verbatim>\<open>while url\<close> loop: the request, the status check, the
  items of the page and the next value of \<^verbatim>\<open>url\<close>.
\<close>

definition next_page ::
  "remote \<Rightarrow> string \<Rightarrow> string \<Rightarrow> state \<Rightarrow> (error + item list \<times> string option) \<times> state" where
  "next_page remote board_id url st =
     (case send remote (GET url) st of
        (Failed, st1) \<Rightarrow> (Inl RequestException, st1)
      | (Reply resp, st1) \<Rightarrow>
          if status_code resp \<noteq> 200
          then (Inl (RuntimeError (status_code resp) url (body_text resp)), st1)
          else (case body_json resp of
                  None \<Rightarrow> (Inl JSONDecodeError, st1)
                | Some data \<Rightarrow>
                    (Inr (page_data data,
                          case page_cursor data of
                            None \<Rightarrow> None
                          | Some cursor \<Rightarrow>
                              if cursor \<noteq> [] then Some (cursor_url board_id cursor) else None),
                     st1)))"

text \<open>
  The generator drained on its own: the items it yields, in order, and how it
  ends. The first argument bounds the number of pages requested.
\<close>

fun get_items_from ::
  "nat \<Rightarrow> remote \<Rightarrow> string \<Rightarrow> string \<Rightarrow> state \<Rightarrow> (outcome \<times> item list) \<times> state" where
  "get_items_from 0 remote board_id url st = ((Diverged, []), st)"
| "get_items_from (Suc n) remote board_id url st =
     (case next_page remote board_id url st of
        (Inl e, st1) \<Rightarrow> ((Raised e, []), st1)
      | (Inr (items, None), st1) \<Rightarrow> ((Finished, items), st1)
      | (Inr (items, Some url'), st1) \<Rightarrow>
          (case get_items_from n remote board_id url' st1 of
             ((ending, rest), st2) \<Rightarrow> ((ending, items @ rest), st2)))"

definition get_items ::
  "nat \<Rightarrow> remote \<Rightarrow> string \<Rightarrow> string \<Rightarrow> state \<Rightarrow> (outcome \<times> item list) \<times> state" where
  "get_items fuel remote board_id item_type st =
     get_items_from fuel remote board_id (first_url board_id item_type) st"

section \<open>The resource locator (lines 114 to 171)\<close>

definition download_urls_to_try :: "string \<Rightarrow> string list" where
  "download_urls_to_try src =
     (if src \<noteq> [] then
        (let base_url = takeWhile (\<lambda>c. c \<noteq> CHR ''?'') src in
         [base_url @ ''?format=original&redirect=true'',
          base_url @ ''?redirect=true'',
          base_url @ ''?format=original'',
          base_url,
          src])
      else [])"

definition content_type :: "response \<Rightarrow> string" where
  "content_type resp = lower (case content_type_header resp of None \<Rightarrow> [] | Some v \<Rightarrow> v)"

definition is_svg_content :: "response \<Rightarrow> bool" where
  "is_svg_content test_resp =
     (contains ''svg'' (content_type test_resp)
      \<or> startswith (strip_by py_isspace (body_text test_resp)) (ustr ''<?xml'')
          \<and> contains (ustr ''svg'') (take 200 (body_text test_resp))
      \<or> startswith (strip_by py_isspace (body_text test_resp)) (ustr ''<svg'')
      \<or> contains ''image/svg'' (content_type test_resp))"

definition matched :: "response \<Rightarrow> bool" where
  "matched test_resp = (status_code test_resp = 200 \<and> is_svg_content test_resp)"

definition preview :: "ustring \<Rightarrow> ustring" where
  "preview t = map (\<lambda>c. if c = 10 then 32 else c) (take 100 t)"

text \<open>
  The body of the \<^verbatim>\<open>try\<close> block, lines 132 to 161, for one candidate: it
  ends at \<^verbatim>\<open>break\<close> (\<open>Hit\<close>), falls through (\<open>Miss\<close>), or an exception
  takes it to the handler (\<open>Threw\<close>). \<open>Threw True\<close>: the exception came
  after line 154 had set \<^verbatim>\<open>successful_url\<close>.
\<close>

datatype attempt = Hit | Miss | Threw bool

definition try_candidate :: "remote \<Rightarrow> bool \<Rightarrow> string \<Rightarrow> state \<Rightarrow> attempt \<times> state" where
  "try_candidate remote q test_url st =
     (case print_unless q (Trying test_url) st of
        None \<Rightarrow> (Threw False, st)
      | Some st1 \<Rightarrow>
          (case send remote (GET test_url) st1 of
             (Failed, st2) \<Rightarrow> (Threw False, st2)
           | (Reply test_resp, st2) \<Rightarrow>
               (case print_unless q (Status (status_code test_resp) (content_type test_resp)) st2 of
                  None \<Rightarrow> (Threw False, st2)
                | Some st3 \<Rightarrow>
                    if matched test_resp then
                      (case print_unless q FoundSvg st3 of
                         None \<Rightarrow> (Threw True, st3)
                       | Some st4 \<Rightarrow> (Hit, st4))
                    else if status_code test_resp = 200 \<and> \<not> q then
                      (case try_print (ContentPreview (preview (body_text test_resp))) st3 of
                         None \<Rightarrow> (Threw False, st3)
                       | Some st4 \<Rightarrow> (Miss, st4))
                    else (Miss, st3))))"

text \<open>
  The loop of lines 130 to 166 with the variable \<^verbatim>\<open>successful_url\<close>. The
  handler prints at line 165 unless quiet, outside any \<^verbatim>\<open>try\<close>: when that
  \<^verbatim>\<open>print\<close> raises, the exception leaves the loop.
\<close>

fun probe ::
  "remote \<Rightarrow> bool \<Rightarrow> string list \<Rightarrow> string option \<Rightarrow> state \<Rightarrow> (outcome \<times> string option) \<times> state" where
  "probe remote q [] successful_url st = ((Finished, successful_url), st)"
| "probe remote q (test_url # rest) successful_url st =
     (case try_candidate remote q test_url st of
        (Hit, st1) \<Rightarrow> ((Finished, Some test_url), st1)
      | (Miss, st1) \<Rightarrow> probe remote q rest successful_url st1
      | (Threw was_set, st1) \<Rightarrow>
          (case print_unless q ProbeError st1 of
             None \<Rightarrow> ((Raised PrintFailed, None), st1)
           | Some st2 \<Rightarrow>
               probe remote q rest (if was_set then Some test_url else successful_url) st2))"

section \<open>The filename resolver (lines 57 to 76 and 175 to 212)\<close>

text \<open>
  \<^verbatim>\<open>re.search(r'filename="([^"]+)"', s)\<close>: the leftmost place where the literal
  is followed by at least one character other than a double quote and then
  a double quote; the group is that run of characters.
\<close>

fun search_quoted :: "string \<Rightarrow> string option" where
  "search_quoted [] = None"
| "search_quoted (c # cs) =
     (if startswith (c # cs) (''filename='' @ [CHR 0x22]) then
        (let rest = drop 10 (c # cs);
             name = takeWhile (\<lambda>x. x \<noteq> CHR 0x22) rest
         in if name \<noteq> [] \<and> dropWhile (\<lambda>x. x \<noteq> CHR 0x22) rest \<noteq> []
            then Some name else search_quoted cs)
      else search_quoted cs)"

text \<open>
  \<^verbatim>\<open>re.search(r'filename=([^;]+)', s)\<close>: the leftmost place where the literal
  is followed by at least one character other than a semicolon; the group
  runs to the next semicolon or to the end.
\<close>

fun search_unquoted :: "string \<Rightarrow> string option" where
  "search_unquoted [] = None"
| "search_unquoted (c # cs) =
     (if startswith (c # cs) ''filename='' then
        (let name = takeWhile (\<lambda>x. x \<noteq> CHR '';'') (drop 9 (c # cs))
         in if name \<noteq> [] then Some name else search_unquoted cs)
      else search_unquoted cs)"

text \<open>
  The bare \<^verbatim>\<open>except\<close> turns a failed request into \<open>None\<close>; so does every
  path that falls out of the nested conditions.
\<close>

definition get_filename_from_headers ::
  "remote \<Rightarrow> string \<Rightarrow> state \<Rightarrow> string option \<times> state" where
  "get_filename_from_headers remote url st =
     (case send remote (HEAD url) st of
        (Failed, st1) \<Rightarrow> (None, st1)
      | (Reply r, st1) \<Rightarrow>
          (if status_code r = 200 then
             (let content_disposition =
                    (case content_disposition_header r of None \<Rightarrow> [] | Some v \<Rightarrow> v)
              in if content_disposition \<noteq> [] then
                   (case search_quoted content_disposition of
                      Some name \<Rightarrow> Some name
                    | None \<Rightarrow>
                        (case search_unquoted content_disposition of
                           Some name \<Rightarrow> Some (strip_by isspace_char name)
                         | None \<Rightarrow> None))
                 else None)
           else None,
           st1))"

text \<open>
  The output directory is a finite list of paths with contents.
  \<open>has_file\<close> looks a path up. \<^verbatim>\<open>dest.exists()\<close> is \<open>dest_exists\<close>:
  \<open>None\<close> when it raises. \<^verbatim>\<open>dest.write_bytes\<close> that succeeds replaces the
  content of an existing file or adds a new one.
\<close>

definition has_file :: "(string \<times> string) list \<Rightarrow> string \<Rightarrow> bool" where
  "has_file fs p = (p \<in> set (map fst fs))"

definition dest_exists :: "host \<Rightarrow> (string \<times> string) list \<Rightarrow> string \<Rightarrow> bool option" where
  "dest_exists h fs p = (if stat_ok h p then Some (has_file fs p) else None)"

fun write_bytes :: "string \<Rightarrow> string \<Rightarrow> (string \<times> string) list \<Rightarrow> (string \<times> string) list" where
  "write_bytes p c [] = [(p, c)]"
| "write_bytes p c ((k, v) # fs) = (if k = p then (p, c) # fs else (k, v) # write_bytes p c fs)"

text \<open>The name built at lines 205 and 207.\<close>

definition numbered :: "string \<Rightarrow> nat \<Rightarrow> string" where
  "numbered name_part counter = name_part @ ''_'' @ str_nat counter @ ''.svg''"

text \<open>
  The loop at lines 202 to 209 ends because decimal numerals of different
  numbers differ, so only finitely many numbered names are taken.
\<close>

declare str_nat.simps [simp del]

definition digits_value :: "string \<Rightarrow> nat" where
  "digits_value s = foldl (\<lambda>a c. 10 * a + (of_char c - 48)) 0 s"

lemma digits_value_str_nat: "digits_value (str_nat n) = n"
proof (induction n rule: str_nat.induct)
  case (1 n)
  show ?case
  proof (cases "n < 10")
    case True
    then show ?thesis
      by (subst str_nat.simps) (simp add: digits_value_def digit_char_def)
  next
    case False
    have m: "n mod 10 < 10" by simp
    have "digits_value (str_nat n) = 10 * digits_value (str_nat (n div 10)) + n mod 10"
      using False m by (subst str_nat.simps) (simp add: digits_value_def digit_char_def)
    then show ?thesis using 1 False by simp
  qed
qed

lemma str_nat_inj: "str_nat a = str_nat b \<Longrightarrow> a = b"
  by (metis digits_value_str_nat)

lemma numbered_inj: "numbered np a = numbered np b \<Longrightarrow> a = b"
  by (simp add: numbered_def str_nat_inj)

lemma finite_numbered: "finite {k. has_file fs (numbered np k)}"
proof -
  have "{k. has_file fs (numbered np k)} = numbered np -` set (map fst fs)"
    by (auto simp: has_file_def)
  moreover have "inj (numbered np)" by (rule injI) (rule numbered_inj)
  ultimately show ?thesis by (simp add: finite_vimageI)
qed

definition taken_from :: "(string \<times> string) list \<Rightarrow> string \<Rightarrow> nat \<Rightarrow> nat set" where
  "taken_from fs np c = {k. c \<le> k \<and> has_file fs (numbered np k)}"

lemma finite_taken_from: "finite (taken_from fs np c)"
  by (rule finite_subset [OF _ finite_numbered [of fs np]]) (auto simp: taken_from_def)

lemma taken_from_step:
  "card (taken_from fs np (Suc c)) + (if has_file fs (numbered np c) then 1 else 0)
     = card (taken_from fs np c)"
proof (cases "has_file fs (numbered np c)")
  case True
  have "taken_from fs np c = insert c (taken_from fs np (Suc c))"
    using True by (auto simp: taken_from_def)
  moreover have "c \<notin> taken_from fs np (Suc c)" by (simp add: taken_from_def)
  ultimately show ?thesis using True by (simp add: finite_taken_from)
next
  case False
  have "taken_from fs np c = taken_from fs np (Suc c)"
  proof -
    have "c \<le> k \<and> has_file fs (numbered np k)
            \<longleftrightarrow> Suc c \<le> k \<and> has_file fs (numbered np k)" for k
      using False by (cases "k = c") auto
    then show ?thesis by (simp add: taken_from_def)
  qed
  then show ?thesis using False by simp
qed

text \<open>
  Lines 200 to 209: \<open>None\<close> when \<^verbatim>\<open>dest.exists()\<close> raises, else the first
  name that does not exist.
\<close>

function resolve_conflict ::
  "host \<Rightarrow> (string \<times> string) list \<Rightarrow> string \<Rightarrow> string \<Rightarrow> nat \<Rightarrow> string option" where
  "resolve_conflict h fs name_part filename counter =
     (case dest_exists h fs filename of
        None \<Rightarrow> None
      | Some True \<Rightarrow> resolve_conflict h fs name_part (numbered name_part counter) (counter + 1)
      | Some False \<Rightarrow> Some filename)"
  by pat_completeness auto
termination
proof (relation "measure (\<lambda>(h, fs, np, filename, c).
          card (taken_from fs np c) + (if has_file fs filename then 1 else 0))", goal_cases)
  case 1
  show ?case by simp
next
  case (2 h fs name_part filename counter x)
  then have "has_file fs filename" by (simp add: dest_exists_def split: if_splits)
  then show ?case using taken_from_step [of fs name_part counter] by simp
qed

declare resolve_conflict.simps [simp del]

section \<open>The downloader and the run (lines 49 to 55 and 78 to 232)\<close>

text \<open>
  \<^verbatim>\<open>download\<close>: a failed request, a status from 400 to 599 and a write that
  fails raise; otherwise the body is written. The result says whether the
  download returned.
\<close>

definition download :: "remote \<Rightarrow> string \<Rightarrow> string \<Rightarrow> state \<Rightarrow> bool \<times> state" where
  "download remote url dest st =
     (case send remote (GET url) st of
        (Failed, st1) \<Rightarrow> (False, st1)
      | (Reply r, st1) \<Rightarrow>
          if 400 \<le> status_code r \<and> status_code r < 600 then (False, st1)
          else if write_ok (host st1) (files st1) dest (body_content r)
          then (True, st1\<lparr>files := write_bytes dest (body_content r) (files st1)\<rparr>)
          else (False, st1))"

definition count_saved :: "bool \<Rightarrow> state \<Rightarrow> state" where
  "count_saved original st =
     (if original
      then st\<lparr>total_saved := total_saved st + 1,
              files_with_original_names := files_with_original_names st + 1\<rparr>
      else st\<lparr>total_saved := total_saved st + 1,
              files_with_generated_names := files_with_generated_names st + 1\<rparr>)"

text \<open>
  The handler of line 226: a line on standard error, which replaces what it
  cannot encode and so takes every line.
\<close>

definition report_failure :: "string \<Rightarrow> state \<Rightarrow> state" where
  "report_failure src st = print_line (FailedToDownload src) st"

text \<open>
  Lines 197 to 226. \<open>original\<close> says whether a header filename was found,
  \<open>filename\<close> is the name chosen at line 190 or 193 and \<open>name_part\<close> the
  text before the counter at line 205 or 207. The \<^verbatim>\<open>print\<close> of line 224
  is inside the \<^verbatim>\<open>try\<close> block: when it raises, the file is written and
  counted and the handler reports a failure.
\<close>

definition store ::
  "remote \<Rightarrow> bool \<Rightarrow> string \<Rightarrow> bool \<Rightarrow> string \<Rightarrow> string \<Rightarrow> state \<Rightarrow> outcome \<times> state" where
  "store remote q src original filename name_part st =
     (case resolve_conflict (host st) (files st) name_part filename 1 of
        None \<Rightarrow> (Raised OSError, st)
      | Some dest \<Rightarrow>
          (case (if \<not> q \<and> dest \<noteq> filename then try_print (ConflictResolved dest) st
                 else Some st) of
             None \<Rightarrow> (Raised PrintFailed, st)
           | Some st1 \<Rightarrow>
               (case download remote src dest st1 of
                  (True, st2) \<Rightarrow>
                    (case print_unless q (Saved dest) (count_saved original st2) of
                       None \<Rightarrow> (Finished, report_failure src (count_saved original st2))
                     | Some st3 \<Rightarrow> (Finished, st3))
                | (False, st2) \<Rightarrow> (Finished, report_failure src st2))))"

text \<open>Lines 191 to 195: \<^verbatim>\<open>item['id']\<close> raises when the item has no identifier.\<close>

definition use_item_id ::
  "remote \<Rightarrow> bool \<Rightarrow> string option \<Rightarrow> string \<Rightarrow> state \<Rightarrow> outcome \<times> state" where
  "use_item_id remote q ident src st =
     (case ident of
        None \<Rightarrow> (Raised KeyError, st)
      | Some i \<Rightarrow>
          (case print_unless q UsingItemId st of
             None \<Rightarrow> (Raised PrintFailed, st)
           | Some st1 \<Rightarrow> store remote q src False (i @ ''.svg'') i st1))"

text \<open>
  Lines 173 to 226, for an item with the identifier \<open>ident\<close> whose probe
  succeeded at \<open>src\<close>.
\<close>

definition save_item ::
  "remote \<Rightarrow> bool \<Rightarrow> string option \<Rightarrow> string \<Rightarrow> state \<Rightarrow> outcome \<times> state" where
  "save_item remote q ident src st =
     (case get_filename_from_headers remote src st of
        (None, st1) \<Rightarrow> use_item_id remote q ident src st1
      | (Some original_filename, st1) \<Rightarrow>
          if original_filename \<noteq> [] then
            (case print_unless q (OriginalFilename original_filename) st1 of
               None \<Rightarrow> (Raised PrintFailed, st1)
             | Some st2 \<Rightarrow>
                 (let safe_filename = sanitize original_filename
                  in store remote q src True safe_filename
                       (rsplit_head ''.svg'' safe_filename) st2))
          else use_item_id remote q ident src st1)"

text \<open>
  Lines 112 to 226 for an object with the identifier \<open>ident\<close> whose
  \<^verbatim>\<open>imageUrl\<close> is \<open>u\<close>.
\<close>

definition locate_and_save ::
  "remote \<Rightarrow> bool \<Rightarrow> string \<Rightarrow> string option \<Rightarrow> url_field \<Rightarrow> state \<Rightarrow> outcome \<times> state" where
  "locate_and_save remote q item_type ident u st =
     (let src = (case u of Url s \<Rightarrow> s | _ \<Rightarrow> []);
          shown_id = (case ident of None \<Rightarrow> ''unknown'' | Some i \<Rightarrow> i)
      in case print_unless q (Found item_type shown_id src) st of
           None \<Rightarrow> (Raised PrintFailed, st)
         | Some st1 \<Rightarrow>
             if u = BadUrl then (Raised AttributeError, st1)
             else
               (case probe remote q (download_urls_to_try src) None st1 of
                  ((Finished, Some successful_url), st2) \<Rightarrow>
                    if successful_url = [] then
                      (case print_unless q NoSvg st2 of
                         None \<Rightarrow> (Raised PrintFailed, st2)
                       | Some st3 \<Rightarrow> (Finished, st3))
                    else save_item remote q ident successful_url st2
                | ((Finished, None), st2) \<Rightarrow>
                    (case print_unless q NoSvg st2 of
                       None \<Rightarrow> (Raised PrintFailed, st2)
                     | Some st3 \<Rightarrow> (Finished, st3))
                | ((ending, r), st2) \<Rightarrow> (ending, st2)))"

text \<open>
  The body of the loop over items, lines 106 to 226. Line 106 counts the
  element before line 108 looks into it.
\<close>

definition process_item :: "remote \<Rightarrow> bool \<Rightarrow> string \<Rightarrow> item \<Rightarrow> state \<Rightarrow> outcome \<times> state" where
  "process_item remote q item_type item st =
     (let st0 = st\<lparr>item_count := item_count st + 1\<rparr>
      in case item of
           NotAnObject \<Rightarrow> (Raised AttributeError, st0)
         | Item ident BadData \<Rightarrow> (Raised AttributeError, st0)
         | Item ident NoData \<Rightarrow> locate_and_save remote q item_type ident NoUrl st0
         | Item ident (Data u) \<Rightarrow> locate_and_save remote q item_type ident u st0)"

fun process_items :: "remote \<Rightarrow> bool \<Rightarrow> string \<Rightarrow> item list \<Rightarrow> state \<Rightarrow> outcome \<times> state" where
  "process_items remote q item_type [] st = (Finished, st)"
| "process_items remote q item_type (item # items) st =
     (case process_item remote q item_type item st of
        (Finished, st1) \<Rightarrow> process_items remote q item_type items st1
      | (ending, st1) \<Rightarrow> (ending, st1))"

text \<open>
  \<^verbatim>\<open>for item in get_items(...)\<close>: the generator is consumed lazily, so the
  items of a page are processed before the next page is requested.
\<close>

fun scan_from :: "nat \<Rightarrow> remote \<Rightarrow> args \<Rightarrow> string \<Rightarrow> string \<Rightarrow> state \<Rightarrow> outcome \<times> state" where
  "scan_from 0 remote a item_type url st = (Diverged, st)"
| "scan_from (Suc n) remote a item_type url st =
     (case next_page remote (board a) url st of
        (Inl e, st1) \<Rightarrow> (Raised e, st1)
      | (Inr (items, next), st1) \<Rightarrow>
          (case process_items remote (quiet a) item_type items st1 of
             (Finished, st2) \<Rightarrow>
               (case next of
                  None \<Rightarrow> (Finished, st2)
                | Some url' \<Rightarrow> scan_from n remote a item_type url' st2)
           | (ending, st2) \<Rightarrow> (ending, st2)))"

text \<open>Lines 103 to 227 for one item type.\<close>

definition scan_type :: "nat \<Rightarrow> remote \<Rightarrow> args \<Rightarrow> string \<Rightarrow> state \<Rightarrow> outcome \<times> state" where
  "scan_type fuel remote a item_type st =
     (case try_print (Scanning item_type) st of
        None \<Rightarrow> (Raised PrintFailed, st)
      | Some st0 \<Rightarrow>
          (case scan_from fuel remote a item_type (first_url (board a) item_type)
                  (st0\<lparr>item_count := 0\<rparr>) of
             (Finished, st1) \<Rightarrow>
               (case try_print (TotalFound item_type (item_count st1)) st1 of
                  None \<Rightarrow> (Raised PrintFailed, st1)
                | Some st2 \<Rightarrow> (Finished, st2))
           | (ending, st1) \<Rightarrow> (ending, st1)))"

fun scan_types :: "nat \<Rightarrow> remote \<Rightarrow> args \<Rightarrow> string list \<Rightarrow> state \<Rightarrow> outcome \<times> state" where
  "scan_types fuel remote a [] st = (Finished, st)"
| "scan_types fuel remote a (item_type # rest) st =
     (case scan_type fuel remote a item_type st of
        (Finished, st1) \<Rightarrow> scan_types fuel remote a rest st1
      | (ending, st1) \<Rightarrow> (ending, st1))"

definition scanned_types :: "string list" where
  "scanned_types =
     [''image'', ''document'', ''shape'', ''sticky_note'', ''text'', ''frame'', ''app_card'']"

definition initial :: "host \<Rightarrow> (string \<times> string) list \<Rightarrow> state" where
  "initial h fs =
     \<lparr>trace = [], files = fs, printed = [], total_saved = 0,
      files_with_original_names = 0, files_with_generated_names = 0, item_count = 0,
      host = h\<rparr>"

text \<open>Lines 229 to 232.\<close>

definition summary :: "state \<Rightarrow> outcome \<times> state" where
  "summary st =
     (case try_print (Done (total_saved st)) st of
        None \<Rightarrow> (Raised PrintFailed, st)
      | Some st1 \<Rightarrow>
          if total_saved st > 0 then
            (case try_print (KeptOriginal (files_with_original_names st)) st1 of
               None \<Rightarrow> (Raised PrintFailed, st1)
             | Some st2 \<Rightarrow>
                 (case try_print (UsedGenerated (files_with_generated_names st)) st2 of
                    None \<Rightarrow> (Raised PrintFailed, st2)
                  | Some st3 \<Rightarrow> (Finished, st3)))
          else (Finished, st1))"

text \<open>
  \<^verbatim>\<open>main\<close> on the host \<open>h\<close>, started on an output directory holding \<open>fs\<close>.
  An exception that leaves the loop leaves \<^verbatim>\<open>main\<close>: there is no handler
  around it.
\<close>

definition main ::
  "nat \<Rightarrow> remote \<Rightarrow> args \<Rightarrow> host \<Rightarrow> (string \<times> string) list \<Rightarrow> outcome \<times> state" where
  "main fuel remote a h fs =
     (case scan_types fuel remote a scanned_types (initial h fs) of
        (Finished, st) \<Rightarrow> summary st
      | (ending, st) \<Rightarrow> (ending, st))"

section \<open>A sample remote side and two hosts\<close>

text \<open>
  A board \<open>b\<close> with two image items on a first page that carries a cursor,
  an empty second page and no item of another type. Both items name the same
  resource, which serves SVG at its third candidate URL only. A \<^verbatim>\<open>HEAD\<close>
  request is answered with the Content-Disposition header given.
\<close>

definition plain :: response where
  "plain = \<lparr>status_code = 200, content_type_header = Some ''text/html'',
            content_disposition_header = None, body_text = ustr ''<html>'',
            body_content = ''<html>'', body_json = None\<rparr>"

definition two_items :: page where
  "two_items =
     \<lparr>page_data = [Item (Some ''42'') (Data (Url ''https://r/x?sig=1'')),
                   Item (Some ''43'') (Data (Url ''https://r/x?sig=1''))],
      page_cursor = Some ''c1''\<rparr>"

definition example_remote :: "string option \<Rightarrow> remote" where
  "example_remote cd tr =
     (case tr of
        [] \<Rightarrow> Failed
      | HEAD u # earlier \<Rightarrow> Reply (plain\<lparr>content_disposition_header := cd\<rparr>)
      | GET u # earlier \<Rightarrow>
          if u = first_url ''b'' ''image'' then Reply (plain\<lparr>body_json := Some two_items\<rparr>)
          else if startswith u API_ROOT
          then Reply (plain\<lparr>body_json := Some \<lparr>page_data = [], page_cursor = None\<rparr>\<rparr>)
          else if u = ''https://r/x?format=original''
          then Reply (plain\<lparr>content_type_header := Some ''image/svg+xml'',
                              body_content := ''<svg/>''\<rparr>)
          else Reply plain)"


text \<open>The arguments of the sample run: board \<open>b\<close>, quiet.\<close>

definition example_args :: args where
  "example_args = \<lparr>board = ''b'', token = ''t'', out = ''svgs'', include_docs = False, quiet = True\<rparr>"

text \<open>
  \<open>plain_host\<close>: standard output takes every line, and every look-up and
  every write in the output directory succeeds.
  \<open>cp1252_host\<close>: standard output is encoded in code page 1252, which has
  no check mark, warning sign or ballot cross, so the lines of 156, 165,
  170 and 224 are refused; the bullet of lines 231 and 232 is in the code
  page. A file name is at most 255 characters long, and a name holding a
  slash is a path into a directory that does not exist.
\<close>

definition plain_host :: host where
  "plain_host = \<lparr>console = (\<lambda>l. True), stat_ok = (\<lambda>p. True), write_ok = (\<lambda>fs p c. True)\<rparr>"

definition cp1252_host :: host where
  "cp1252_host =
     \<lparr>console = (\<lambda>l. case l of FoundSvg \<Rightarrow> False | ProbeError \<Rightarrow> False | NoSvg \<Rightarrow> False
                        | Saved p \<Rightarrow> False | _ \<Rightarrow> True),
      stat_ok = (\<lambda>p. length p \<le> 255),
      write_ok = (\<lambda>fs p c. length p \<le> 255 \<and> CHR ''/'' \<notin> set p)\<rparr>"

section \<open>Invariant and relations on states\<close>

text \<open>
  \<open>tally n\<close>: the total is the sum of the two name counters, and the output
  directory holds \<open>n\<close> files more than were counted as saved.
\<close>

definition tally :: "nat \<Rightarrow> state \<Rightarrow> bool" where
  "tally n st =
     (total_saved st = files_with_original_names st + files_with_generated_names st
      \<and> length (files st) = n + total_saved st)"

text \<open>
  \<open>accepting h\<close>: standard output of the host takes every line.
  \<open>steady q h\<close>: in the probing loop a failed \<^verbatim>\<open>print\<close> is not followed by
  a successful one in the handler, because nothing is printed (quiet), or no
  \<^verbatim>\<open>print\<close> fails, or the line of the handler (line 165) is itself refused.
\<close>

definition accepting :: "host \<Rightarrow> bool" where
  "accepting h = (\<forall>l. console h l)"

text \<open>
  A step of the loop whenever a failed \<^verbatim>\<open>print\<close> cannot be followed by a
  successful one in the handler: it raises having issued at most this
  request, or it stops at a match, or it goes on after a reply that is none.
\<close>

definition steady :: "bool \<Rightarrow> host \<Rightarrow> bool" where
  "steady q h = (q \<or> accepting h \<or> \<not> console h ProbeError)"

text \<open>
  \<open>framed st st'\<close>: the state \<open>st'\<close> differs from \<open>st\<close> at most in the
  requests issued and the lines printed. \<open>shown q l\<close> is the effect of
  \<open>print_unless q l\<close> when the line is taken.
\<close>

definition framed :: "state \<Rightarrow> state \<Rightarrow> bool" where
  "framed st st' =
     (files st' = files st \<and> total_saved st' = total_saved st
      \<and> files_with_original_names st' = files_with_original_names st
      \<and> files_with_generated_names st' = files_with_generated_names st
      \<and> item_count st' = item_count st \<and> host st' = host st)"

definition shown :: "bool \<Rightarrow> log_line \<Rightarrow> state \<Rightarrow> state" where
  "shown q l st = (if q then st else print_line l st)"

text \<open>
  Two states on a host that takes every line which agree on everything but
  the lines printed.
\<close>

definition same :: "state \<Rightarrow> state \<Rightarrow> bool" where
  "same st st' =
     (accepting (host st) \<and> host st' = host st
      \<and> trace st = trace st' \<and> files st = files st' \<and> total_saved st = total_saved st'
      \<and> files_with_original_names st = files_with_original_names st'
      \<and> files_with_generated_names st = files_with_generated_names st'
      \<and> item_count st = item_count st')"

section \<open>Notions used in the statements\<close>

text \<open>
  For stating what the probing loop did: whether a reply counts as a match,
  and the reply the remote side gives to the probe number \<open>j\<close> (from 0)
  of a list of candidates probed in order after the requests \<open>tr\<close>.
\<close>

definition reply_matched :: "reply \<Rightarrow> bool" where
  "reply_matched r = (case r of Failed \<Rightarrow> False | Reply resp \<Rightarrow> matched resp)"

definition probe_reply :: "remote \<Rightarrow> request list \<Rightarrow> string list \<Rightarrow> nat \<Rightarrow> reply" where
  "probe_reply remote tr urls j = remote (rev (map GET (take (Suc j) urls)) @ tr)"

text \<open>
  A run of listing pages as the enumerator meets it: every page but the last
  carries a non-empty cursor, the last carries none or an empty one.
  \<open>page_urls\<close> are the URLs the pages are asked for, and \<open>serves\<close> says
  that the remote side answers these requests, issued in this order after the
  requests \<open>tr\<close>, with status 200 and the pages.
\<close>

definition cursor_of :: "page \<Rightarrow> string" where
  "cursor_of p = (case page_cursor p of None \<Rightarrow> [] | Some c \<Rightarrow> c)"

fun chained :: "page list \<Rightarrow> bool" where
  "chained [] = False"
| "chained [p] = (cursor_of p = [])"
| "chained (p # q # ps) = (cursor_of p \<noteq> [] \<and> chained (q # ps))"

definition follow_ups :: "string \<Rightarrow> page list \<Rightarrow> string list" where
  "follow_ups board_id pages = map (\<lambda>p. cursor_url board_id (cursor_of p)) (butlast pages)"

definition page_urls :: "string \<Rightarrow> string \<Rightarrow> page list \<Rightarrow> string list" where
  "page_urls board_id item_type pages = first_url board_id item_type # follow_ups board_id pages"

fun serves :: "remote \<Rightarrow> request list \<Rightarrow> string list \<Rightarrow> page list \<Rightarrow> bool" where
  "serves remote tr [] [] = True"
| "serves remote tr (u # us) (p # ps) =
     (case remote (GET u # tr) of
        Failed \<Rightarrow> False
      | Reply r \<Rightarrow> status_code r = 200 \<and> body_json r = Some p \<and> serves remote (GET u # tr) us ps)"
| "serves remote tr [] (p # ps) = False"
| "serves remote tr (u # us) [] = False"

text \<open>
  The replies to the \<^verbatim>\<open>HEAD\<close> request from which no filename can be
  recovered, in the words of the specification: the request failed, the status
  is not 200, the header is absent, or the header holds no \<open>filename=\<close>
  token. \<open>download_returns\<close>: the reply lets \<^verbatim>\<open>download\<close> reach the write
  of line 55; \<open>downloaded\<close>: the bytes it would write.
\<close>

definition head_gives_no_filename :: "reply \<Rightarrow> bool" where
  "head_gives_no_filename r =
     (case r of
        Failed \<Rightarrow> True
      | Reply resp \<Rightarrow>
          status_code resp \<noteq> 200
          \<or> (case content_disposition_header resp of
                None \<Rightarrow> True
              | Some v \<Rightarrow> \<not> contains ''filename='' v))"

definition download_returns :: "reply \<Rightarrow> bool" where
  "download_returns r =
     (case r of
        Failed \<Rightarrow> False
      | Reply resp \<Rightarrow> \<not> (400 \<le> status_code resp \<and> status_code resp < 600))"

definition downloaded :: "reply \<Rightarrow> string" where
  "downloaded r = (case r of Failed \<Rightarrow> [] | Reply resp \<Rightarrow> body_content resp)"

section \<open>Facts about the string functions\<close>

lemma startswith_append: "startswith (p @ r) p"
  by (induction p) auto

lemma startswith_iff: "startswith s p \<longleftrightarrow> (\<exists>r. s = p @ r)"
  by (induction s p rule: startswith.induct) auto

lemma endswith_append: "endswith (s @ p) p"
  by (simp add: endswith_def startswith_append)

lemma endswith_iff: "endswith s p \<longleftrightarrow> (\<exists>r. s = r @ p)"
proof -
  have "endswith s p \<longleftrightarrow> (\<exists>r. rev s = rev p @ r)"
    by (simp add: endswith_def startswith_iff)
  also have "\<dots> \<longleftrightarrow> (\<exists>r. s = r @ p)"
  proof
    assume "\<exists>r. rev s = rev p @ r"
    then obtain r where "rev s = rev p @ r" ..
    then have "rev (rev s) = rev (rev p @ r)" by simp
    then have "s = rev r @ p" by simp
    then show "\<exists>r. s = r @ p" ..
  next
    assume "\<exists>r. s = r @ p"
    then obtain r where "s = r @ p" ..
    then have "rev s = rev p @ rev r" by simp
    then show "\<exists>r. rev s = rev p @ r" ..
  qed
  finally show ?thesis .
qed

lemma strip_by_Nil_iff: "strip_by P s = [] \<longleftrightarrow> list_all P s"
proof (cases "dropWhile P s")
  case Nil
  then have "strip_by P s = []" by (simp add: strip_by_def del: dropWhile_eq_Nil_conv)
  moreover from Nil have "list_all P s" by (simp add: list_all_iff)
  ultimately show ?thesis by simp
next
  case (Cons y ys)
  then have y: "\<not> P y" using hd_dropWhile [of P s] by simp
  have "y \<in> set s" using Cons set_dropWhileD [of y P s] by simp
  with y have "\<not> list_all P s" by (auto simp: list_all_iff)
  moreover have "strip_by P s \<noteq> []" using Cons y by (auto simp: strip_by_def)
  ultimately show ?thesis by simp
qed

lemma strip_by_hd: "strip_by P s \<noteq> [] \<Longrightarrow> \<not> P (hd (strip_by P s))"
proof -
  assume a: "strip_by P s \<noteq> []"
  let ?d = "dropWhile P s"
  have d: "?d \<noteq> []"
  proof
    assume "?d = []"
    then have "strip_by P s = []" by (simp add: strip_by_def del: dropWhile_eq_Nil_conv)
    with a show False by simp
  qed
  then have h: "\<not> P (hd ?d)" by (rule hd_dropWhile)
  from a have r: "dropWhile P (rev ?d) \<noteq> []" by (simp add: strip_by_def)
  have "hd (rev (dropWhile P (rev ?d))) = last (dropWhile P (rev ?d))"
    using r by (simp add: hd_rev)
  also have "\<dots> = last (rev ?d)"
    using r by (metis last_appendR takeWhile_dropWhile_id)
  also have "\<dots> = hd ?d" using d by (simp add: last_rev)
  finally show ?thesis using h by (simp add: strip_by_def)
qed

lemma strip_by_last: "strip_by P s \<noteq> [] \<Longrightarrow> \<not> P (last (strip_by P s))"
proof -
  assume a: "strip_by P s \<noteq> []"
  then have r: "dropWhile P (rev (dropWhile P s)) \<noteq> []" by (simp add: strip_by_def)
  then have "\<not> P (hd (dropWhile P (rev (dropWhile P s))))" by (rule hd_dropWhile)
  then show ?thesis using r by (simp add: strip_by_def last_rev)
qed

lemma strip_by_id: "s \<noteq> [] \<Longrightarrow> \<not> P (hd s) \<Longrightarrow> \<not> P (last s) \<Longrightarrow> strip_by P s = s"
proof -
  assume s: "s \<noteq> []" and h: "\<not> P (hd s)" and l: "\<not> P (last s)"
  from s h have 1: "dropWhile P s = s" by (cases s) auto
  from s l have "\<not> P (hd (rev s))" by (simp add: hd_rev)
  with s have 2: "dropWhile P (rev s) = rev s" by (cases "rev s") auto
  show ?thesis by (simp add: strip_by_def 1 2)
qed

lemma set_strip_by: "set (strip_by P s) \<subseteq> set s"
  by (auto simp: strip_by_def dest!: set_dropWhileD)

lemma replace_illegal_clean: "c \<in> set (replace_illegal s) \<Longrightarrow> \<not> illegal_char c"
  by (auto simp: replace_illegal_def illegal_char_def)

lemma replace_illegal_id: "\<forall>c\<in>set s. \<not> illegal_char c \<Longrightarrow> replace_illegal s = s"
  by (simp add: replace_illegal_def map_idI)

lemma dot_or_space_replace_illegal:
  "list_all dot_or_space (replace_illegal x) = list_all dot_or_space x"
  by (induction x) (auto simp: replace_illegal_def dot_or_space_def illegal_char_def)

lemma lower_append: "lower (a @ b) = lower a @ lower b"
  by (simp add: lower_def)

lemma lower_svg: "lower ''.svg'' = ''.svg''"
  by (simp add: lower_def lower_char_def)

lemma lower_dot_or_space: "dot_or_space c \<Longrightarrow> lower_char c = c"
  by (auto simp: dot_or_space_def lower_char_def)

lemma endswith_lower_svg_last:
  assumes "endswith (lower s) ''.svg''"
  shows "s \<noteq> [] \<and> \<not> dot_or_space (last s)"
proof -
  from assms obtain r where r: "lower s = r @ ''.svg''" by (auto simp: endswith_iff)
  then have ne: "s \<noteq> []" by (auto simp: lower_def)
  from r have "last (lower s) = CHR ''g''" by simp
  with ne have g: "lower_char (last s) = CHR ''g''" by (simp add: lower_def last_map)
  have "\<not> dot_or_space (last s)"
  proof
    assume d: "dot_or_space (last s)"
    then have "lower_char (last s) = last s" by (rule lower_dot_or_space)
    with g d show False by (simp add: dot_or_space_def)
  qed
  with ne show ?thesis by simp
qed

lemma sanitize_fixed:
  assumes ne: "y \<noteq> []" and h: "\<not> dot_or_space (hd y)" and l: "\<not> dot_or_space (last y)"
    and c: "\<forall>c\<in>set y. \<not> illegal_char c" and e: "endswith (lower y) ''.svg''"
  shows "sanitize y = y"
proof -
  have 1: "replace_illegal y = y" using c by (rule replace_illegal_id)
  have 2: "strip_by dot_or_space y = y" using ne h l by (rule strip_by_id)
  show ?thesis using e by (simp add: sanitize_def 1 2)
qed

lemma sanitize_nonempty_idem:
  assumes "strip_by dot_or_space (replace_illegal x) \<noteq> []"
  shows "sanitize (sanitize x) = sanitize x"
proof -
  let ?t = "strip_by dot_or_space (replace_illegal x)"
  have h: "\<not> dot_or_space (hd ?t)" using assms by (rule strip_by_hd)
  have l: "\<not> dot_or_space (last ?t)" using assms by (rule strip_by_last)
  have c: "\<forall>c\<in>set ?t. \<not> illegal_char c"
    using set_strip_by [of dot_or_space "replace_illegal x"] replace_illegal_clean by blast
  show ?thesis
  proof (cases "endswith (lower ?t) ''.svg''")
    case True
    then have s: "sanitize x = ?t" by (simp add: sanitize_def)
    show ?thesis unfolding s using assms h l c True by (rule sanitize_fixed)
  next
    case False
    then have s: "sanitize x = ?t @ ''.svg''" by (simp add: sanitize_def)
    have "sanitize (?t @ ''.svg'') = ?t @ ''.svg''"
    proof (rule sanitize_fixed)
      show "?t @ ''.svg'' \<noteq> []" by simp
      show "\<not> dot_or_space (hd (?t @ ''.svg''))" using assms h by simp
      show "\<not> dot_or_space (last (?t @ ''.svg''))" by (simp add: dot_or_space_def)
      show "\<forall>c\<in>set (?t @ ''.svg''). \<not> illegal_char c"
        using c by (auto simp: illegal_char_def)
      show "endswith (lower (?t @ ''.svg'')) ''.svg''"
        by (simp add: lower_append lower_svg endswith_append)
    qed
    then show ?thesis by (simp add: s)
  qed
qed

lemma sanitize_dots:
  assumes "list_all dot_or_space x"
  shows "sanitize x = ''.svg''"
proof -
  have "strip_by dot_or_space (replace_illegal x) = []"
    using assms by (simp add: strip_by_Nil_iff dot_or_space_replace_illegal)
  then show ?thesis
    by (simp add: sanitize_def endswith_def lower_def)
qed

lemma sanitize_bare_extension: "sanitize ''.svg'' = ''svg.svg''"
  by (simp add: sanitize_def replace_illegal_def strip_by_def dot_or_space_def endswith_def
      lower_def lower_char_def illegal_char_def)

lemma startswith_strip:
  assumes ne: "p \<noteq> []" and l: "\<not> P (last p)"
  shows "startswith (strip_by P s) p = startswith (lstrip_by P s) p"
proof
  assume "startswith (strip_by P s) p"
  then obtain r where r: "strip_by P s = p @ r" by (auto simp: startswith_iff)
  let ?d = "dropWhile P s"
  have "rev ?d = takeWhile P (rev ?d) @ dropWhile P (rev ?d)" by simp
  then have "?d = rev (dropWhile P (rev ?d)) @ rev (takeWhile P (rev ?d))"
    by (metis rev_append rev_rev_ident)
  then have "?d = p @ r @ rev (takeWhile P (rev ?d))"
    using r by (simp add: strip_by_def)
  then show "startswith (lstrip_by P s) p"
    unfolding startswith_iff lstrip_by_def by blast
next
  assume "startswith (lstrip_by P s) p"
  then obtain r where r: "dropWhile P s = p @ r" by (auto simp: startswith_iff lstrip_by_def)
  have hp: "dropWhile P (rev p) = rev p"
    using ne l by (cases "rev p") (auto simp: last_rev [symmetric] hd_rev)
  have "\<exists>t. dropWhile P (rev r @ rev p) = t @ rev p"
  proof (cases "\<forall>x\<in>set (rev r). P x")
    case True
    then have "dropWhile P (rev r @ rev p) = [] @ rev p" by (simp add: dropWhile_append hp)
    then show ?thesis by blast
  next
    case False
    then have "dropWhile P (rev r @ rev p) = dropWhile P (rev r) @ rev p"
      by (auto simp: dropWhile_append)
    then show ?thesis by blast
  qed
  then obtain t where "dropWhile P (rev r @ rev p) = t @ rev p" ..
  then have "strip_by P s = p @ rev t" by (simp add: strip_by_def r)
  then show "startswith (strip_by P s) p" unfolding startswith_iff by blast
qed

lemma xml_not_space: "ustr ''<?xml'' \<noteq> [] \<and> \<not> py_isspace (last (ustr ''<?xml''))"
  by (simp add: ustr_def py_isspace_def)

lemma svg_not_space: "ustr ''<svg'' \<noteq> [] \<and> \<not> py_isspace (last (ustr ''<svg''))"
  by (simp add: ustr_def py_isspace_def)

lemma startswith_contains: "startswith s p \<Longrightarrow> contains p s"
  by (cases s) (auto simp: startswith_iff)

lemma contains_append: "contains p (a @ p @ b)"
  by (induction a) (simp_all add: startswith_contains startswith_append)

section \<open>Facts about printing and the probing loop\<close>

lemma print_line_fields [simp]:
  "trace (print_line l st) = trace st"
  "files (print_line l st) = files st"
  "total_saved (print_line l st) = total_saved st"
  "files_with_original_names (print_line l st) = files_with_original_names st"
  "files_with_generated_names (print_line l st) = files_with_generated_names st"
  "item_count (print_line l st) = item_count st"
  "host (print_line l st) = host st"
  by (simp_all add: print_line_def)

lemma shown_fields [simp]:
  "trace (shown q l st) = trace st"
  "files (shown q l st) = files st"
  "total_saved (shown q l st) = total_saved st"
  "files_with_original_names (shown q l st) = files_with_original_names st"
  "files_with_generated_names (shown q l st) = files_with_generated_names st"
  "item_count (shown q l st) = item_count st"
  "host (shown q l st) = host st"
  by (simp_all add: shown_def)

lemma send_fields [simp]:
  "fst (send remote req st) = remote (req # trace st)"
  "trace (snd (send remote req st)) = req # trace st"
  "files (snd (send remote req st)) = files st"
  "total_saved (snd (send remote req st)) = total_saved st"
  "files_with_original_names (snd (send remote req st)) = files_with_original_names st"
  "files_with_generated_names (snd (send remote req st)) = files_with_generated_names st"
  "item_count (snd (send remote req st)) = item_count st"
  "printed (snd (send remote req st)) = printed st"
  "host (snd (send remote req st)) = host st"
  by (simp_all add: send_def)

lemma try_print_Some: "try_print l st = Some st' \<Longrightarrow> st' = print_line l st"
  by (simp add: try_print_def split: if_splits)

lemma print_unless_Some: "print_unless q l st = Some st' \<Longrightarrow> st' = shown q l st"
  by (auto simp: print_unless_def shown_def dest: try_print_Some)

lemma try_print_accepting: "accepting (host st) \<Longrightarrow> try_print l st = Some (print_line l st)"
  by (simp add: try_print_def accepting_def)

lemma print_unless_calm:
  "q \<or> accepting (host st) \<Longrightarrow> print_unless q l st = Some (shown q l st)"
  by (auto simp: print_unless_def shown_def try_print_accepting)

lemma print_unless_refused:
  "\<not> q \<Longrightarrow> \<not> console (host st) l \<Longrightarrow> print_unless q l st = None"
  by (simp add: print_unless_def try_print_def)

lemma framed_refl [simp]: "framed st st"
  by (simp add: framed_def)

lemma framed_trans: "framed st st1 \<Longrightarrow> framed st1 st2 \<Longrightarrow> framed st st2"
  by (simp add: framed_def)

lemma framed_print_line [simp]: "framed st (print_line l st)"
  by (simp add: framed_def)

lemma framed_shown [simp]: "framed st (shown q l st)"
  by (simp add: framed_def)

lemma framed_send [simp]: "framed st (snd (send remote req st))"
  by (simp add: framed_def)

lemma framed_update [simp]: "framed st (st\<lparr>trace := t, printed := p\<rparr>)"
  by (simp add: framed_def)

lemma state_frame:
  fixes X st :: state
  assumes "framed st X" "trace X = t"
  shows "X = st\<lparr>trace := t, printed := printed X\<rparr>"
  using assms by (intro state.equality) (simp_all add: framed_def)

text \<open>What one candidate does to the state, whatever the console.\<close>

lemma try_candidate_frame:
  "framed st (snd (try_candidate remote q u st))
   \<and> (trace (snd (try_candidate remote q u st)) = trace st
      \<or> trace (snd (try_candidate remote q u st)) = GET u # trace st)"
proof (cases "print_unless q (Trying u) st")
  case None
  then show ?thesis by (simp add: try_candidate_def)
next
  case (Some st1)
  then have st1: "st1 = shown q (Trying u) st" by (rule print_unless_Some)
  obtain r st2 where s: "send remote (GET u) st1 = (r, st2)" by (cases "send remote (GET u) st1")
  have "st2 = snd (send remote (GET u) st1)" using s by simp
  then have st2: "framed st st2" "trace st2 = GET u # trace st"
    by (simp_all add: framed_def st1)
  show ?thesis
  proof (cases r)
    case Failed
    then show ?thesis using Some s st2 by (simp add: try_candidate_def)
  next
    case (Reply resp)
    show ?thesis
    proof (cases "print_unless q (Status (status_code resp) (content_type resp)) st2")
      case None
      then show ?thesis using Some s Reply st2 by (simp add: try_candidate_def)
    next
      case s3: (Some st3)
      then have st3: "framed st st3" "trace st3 = GET u # trace st"
        using st2 print_unless_Some [OF s3] by (simp_all add: framed_def)
      have a: "framed st st4 \<and> trace st4 = GET u # trace st"
        if "print_unless q l st3 = Some st4" for l st4
        using st3 print_unless_Some [OF that] by (simp add: framed_def)
      have b: "framed st st4 \<and> trace st4 = GET u # trace st"
        if "try_print l st3 = Some st4" for l st4
        using st3 try_print_Some [OF that] by (simp add: framed_def)
      show ?thesis
        using Some s Reply s3 st3 a b
        by (auto simp: try_candidate_def split: option.splits)
    qed
  qed
qed

text \<open>One candidate in a quiet run or on a console that takes every line.\<close>

lemma try_candidate_calm:
  assumes "q \<or> accepting (host st)"
  shows "\<exists>p. try_candidate remote q u st =
           (case remote (GET u # trace st) of
              Failed \<Rightarrow> Threw False
            | Reply resp \<Rightarrow> if matched resp then Hit else Miss,
            st\<lparr>trace := GET u # trace st, printed := p\<rparr>)"
proof -
  let ?st1 = "shown q (Trying u) st"
  let ?st2 = "snd (send remote (GET u) ?st1)"
  have p1: "print_unless q (Trying u) st = Some ?st1" using assms by (rule print_unless_calm)
  have s: "send remote (GET u) ?st1 = (remote (GET u # trace st), ?st2)"
    by (simp add: send_def)
  have c2: "q \<or> accepting (host ?st2)" using assms by simp
  show ?thesis
  proof (cases "remote (GET u # trace st)")
    case Failed
    have e: "try_candidate remote q u st = (Threw False, ?st2)"
      unfolding try_candidate_def p1 using Failed by (simp add: send_def)
    have "?st2 = st\<lparr>trace := GET u # trace st, printed := printed ?st2\<rparr>"
      by (rule state_frame) (simp_all add: framed_def)
    then show ?thesis using e Failed by (intro exI [of _ "printed ?st2"]) simp
  next
    case (Reply resp)
    let ?st3 = "shown q (Status (status_code resp) (content_type resp)) ?st2"
    have p3: "print_unless q (Status (status_code resp) (content_type resp)) ?st2 = Some ?st3"
      using c2 by (rule print_unless_calm)
    have c3: "q \<or> accepting (host ?st3)" using assms by simp
    show ?thesis
    proof (cases "matched resp")
      case True
      let ?st4 = "shown q FoundSvg ?st3"
      have p4: "print_unless q FoundSvg ?st3 = Some ?st4" using c3 by (rule print_unless_calm)
      have e: "try_candidate remote q u st = (Hit, ?st4)"
        unfolding try_candidate_def p1 using Reply True p3 p4 by (simp add: send_def)
      have "?st4 = st\<lparr>trace := GET u # trace st, printed := printed ?st4\<rparr>"
        by (rule state_frame) (simp_all add: framed_def)
      then show ?thesis using e Reply True by (intro exI [of _ "printed ?st4"]) simp
    next
      case False
      show ?thesis
      proof (cases "status_code resp = 200 \<and> \<not> q")
        case True
        let ?l = "ContentPreview (preview (body_text resp))"
        let ?st4 = "print_line ?l ?st3"
        have "accepting (host ?st3)" using assms True by simp
        then have p4: "try_print ?l ?st3 = Some ?st4" by (rule try_print_accepting)
        have e: "try_candidate remote q u st = (Miss, ?st4)"
          unfolding try_candidate_def p1 using Reply False True p3 p4 by (simp add: send_def)
        have "?st4 = st\<lparr>trace := GET u # trace st, printed := printed ?st4\<rparr>"
          by (rule state_frame) (simp_all add: framed_def)
        then show ?thesis using e Reply False by (intro exI [of _ "printed ?st4"]) simp
      next
        case nq: False
        have e: "try_candidate remote q u st = (Miss, ?st3)"
          unfolding try_candidate_def p1 using Reply False nq p3 by (auto simp: send_def)
        have "?st3 = st\<lparr>trace := GET u # trace st, printed := printed ?st3\<rparr>"
          by (rule state_frame) (simp_all add: framed_def)
        then show ?thesis using e Reply False by (intro exI [of _ "printed ?st3"]) simp
      qed
    qed
  qed
qed

lemma probe_reply_0 [simp]: "probe_reply remote tr (u # us) 0 = remote (GET u # tr)"
  by (simp add: probe_reply_def)

lemma probe_reply_Suc [simp]:
  "probe_reply remote tr (u # us) (Suc j) = probe_reply remote (GET u # tr) us j"
  by (simp add: probe_reply_def)

lemma print_unless_framed: "print_unless q l st = Some st' \<Longrightarrow> framed st st' \<and> trace st' = trace st"
  by (auto dest!: print_unless_Some)

lemma try_print_framed: "try_print l st = Some st' \<Longrightarrow> framed st st' \<and> trace st' = trace st"
  by (auto dest!: try_print_Some)

lemma try_candidate_Hit:
  assumes "try_candidate remote q u st = (Hit, st1)"
  shows "reply_matched (remote (GET u # trace st)) \<and> trace st1 = GET u # trace st"
  using assms
  by (auto simp: try_candidate_def send_def reply_matched_def
      split: option.splits reply.splits if_splits dest!: print_unless_Some try_print_Some)

lemma try_candidate_Miss:
  assumes "try_candidate remote q u st = (Miss, st1)"
  shows "\<not> reply_matched (remote (GET u # trace st)) \<and> trace st1 = GET u # trace st"
  using assms
  by (auto simp: try_candidate_def send_def reply_matched_def
      split: option.splits reply.splits if_splits dest!: print_unless_Some try_print_Some)

lemma probe_frame: "framed st (snd (probe remote q urls found st))"
proof (induction urls arbitrary: found st)
  case Nil
  then show ?case by simp
next
  case (Cons u rest)
  obtain a st1 where t: "try_candidate remote q u st = (a, st1)"
    by (cases "try_candidate remote q u st")
  have f1: "framed st st1" using try_candidate_frame [of st remote q u] t by simp
  show ?case
  proof (cases a)
    case Hit
    then show ?thesis using t f1 by simp
  next
    case Miss
    then show ?thesis using t f1 Cons.IH [where found=found and st=st1] by (auto intro: framed_trans)
  next
    case (Threw b)
    show ?thesis
    proof (cases "print_unless q ProbeError st1")
      case None
      then show ?thesis using t Threw f1 by simp
    next
      case (Some st2)
      then have "framed st st2" using f1 print_unless_framed [OF Some] by (auto intro: framed_trans)
      then show ?thesis
        using t Threw Some Cons.IH [where found="if b then Some u else found" and st=st2]
        by (auto intro: framed_trans)
    qed
  qed
qed

text \<open>
  A step of the loop in a quiet run or on a console that takes every line:
  nothing raises, and the reply alone decides.
\<close>

lemma probe_Cons:
  assumes "q \<or> accepting (host st)"
  shows "\<exists>p. probe remote q (u # rest) found st =
       (if reply_matched (remote (GET u # trace st))
        then ((Finished, Some u), st\<lparr>trace := GET u # trace st, printed := p\<rparr>)
        else probe remote q rest found (st\<lparr>trace := GET u # trace st, printed := p\<rparr>))"
proof -
  obtain p where t: "try_candidate remote q u st =
           (case remote (GET u # trace st) of
              Failed \<Rightarrow> Threw False
            | Reply resp \<Rightarrow> if matched resp then Hit else Miss,
            st\<lparr>trace := GET u # trace st, printed := p\<rparr>)"
    using try_candidate_calm [OF assms, of remote u] by blast
  let ?st1 = "st\<lparr>trace := GET u # trace st, printed := p\<rparr>"
  show ?thesis
  proof (cases "remote (GET u # trace st)")
    case Failed
    let ?st2 = "shown q ProbeError ?st1"
    have "q \<or> accepting (host ?st1)" using assms by simp
    then have pe: "print_unless q ProbeError ?st1 = Some ?st2" by (rule print_unless_calm)
    have e: "probe remote q (u # rest) found st = probe remote q rest found ?st2"
      using t Failed pe by simp
    have b: "?st2 = st\<lparr>trace := GET u # trace st, printed := printed ?st2\<rparr>"
      by (rule state_frame) (simp_all add: framed_def)
    have c: "\<not> reply_matched (remote (GET u # trace st))"
      using Failed by (simp add: reply_matched_def)
    show ?thesis
      unfolding e by (rule exI [of _ "printed ?st2"]) (simp only: c if_False b [symmetric])
  next
    case (Reply resp)
    have m: "reply_matched (remote (GET u # trace st)) = matched resp"
      using Reply by (simp add: reply_matched_def)
    show ?thesis
      using t Reply m by (intro exI [of _ p]) simp
  qed
qed

lemma probe_step:
  assumes "steady q (host st)"
  shows "\<exists>st1. host st1 = host st \<and>
           (probe remote q (u # rest) found st = ((Raised PrintFailed, None), st1)
              \<and> (trace st1 = trace st \<or> trace st1 = GET u # trace st)
            \<or> probe remote q (u # rest) found st = ((Finished, Some u), st1)
              \<and> trace st1 = GET u # trace st \<and> reply_matched (remote (GET u # trace st))
            \<or> probe remote q (u # rest) found st = probe remote q rest found st1
              \<and> trace st1 = GET u # trace st \<and> \<not> reply_matched (remote (GET u # trace st)))"
proof (cases "q \<or> accepting (host st)")
  case True
  obtain p where p: "probe remote q (u # rest) found st =
       (if reply_matched (remote (GET u # trace st))
        then ((Finished, Some u), st\<lparr>trace := GET u # trace st, printed := p\<rparr>)
        else probe remote q rest found (st\<lparr>trace := GET u # trace st, printed := p\<rparr>))"
    using probe_Cons [OF True, of remote u rest found] by blast
  show ?thesis
    unfolding p by (rule exI [of _ "st\<lparr>trace := GET u # trace st, printed := p\<rparr>"]) simp
next
  case False
  with assms have nq: "\<not> q" and r: "\<not> console (host st) ProbeError"
    by (simp_all add: steady_def)
  obtain a st1 where t: "try_candidate remote q u st = (a, st1)"
    by (cases "try_candidate remote q u st")
  have f: "framed st st1" "trace st1 = trace st \<or> trace st1 = GET u # trace st"
    using try_candidate_frame [of st remote q u] t by simp_all
  then have h: "host st1 = host st" by (simp add: framed_def)
  show ?thesis
  proof (cases a)
    case Hit
    then show ?thesis using t try_candidate_Hit [OF t [unfolded Hit]] h
      by (intro exI [of _ st1]) simp
  next
    case Miss
    then show ?thesis using t try_candidate_Miss [OF t [unfolded Miss]] h
      by (intro exI [of _ st1]) simp
  next
    case (Threw b)
    have "print_unless q ProbeError st1 = None"
      using nq r h by (simp add: print_unless_refused)
    then show ?thesis using t Threw f(2) h by (intro exI [of _ st1]) simp
  qed
qed

text \<open>
  The whole loop under that condition: the requests issued are the first
  \<open>m\<close> candidates in order, no reply before the last request was a match,
  and a loop that ends normally returns the candidate of the last request,
  whose reply was a match, or has requested every candidate and found no
  match.
\<close>

lemma probe_stops:
  assumes "steady q (host st)" "probe remote q urls found st = ((ending, r), st')"
  shows "\<exists>m\<le>length urls.
           trace st' = rev (map GET (take m urls)) @ trace st
           \<and> (\<forall>j. Suc j < m \<longrightarrow> \<not> reply_matched (probe_reply remote (trace st) urls j))
           \<and> (ending = Finished \<or> ending = Raised PrintFailed)
           \<and> (ending = Finished \<longrightarrow>
                 (\<exists>k. m = Suc k \<and> reply_matched (probe_reply remote (trace st) urls k)
                       \<and> r = Some (urls ! k))
                 \<or> (m = length urls
                     \<and> (\<forall>j<m. \<not> reply_matched (probe_reply remote (trace st) urls j))
                     \<and> r = found))"
  using assms
proof (induction urls arbitrary: st)
  case Nil
  then show ?case by simp
next
  case (Cons u rest)
  obtain st1 where h: "host st1 = host st"
    and c: "probe remote q (u # rest) found st = ((Raised PrintFailed, None), st1)
              \<and> (trace st1 = trace st \<or> trace st1 = GET u # trace st)
            \<or> probe remote q (u # rest) found st = ((Finished, Some u), st1)
              \<and> trace st1 = GET u # trace st \<and> reply_matched (remote (GET u # trace st))
            \<or> probe remote q (u # rest) found st = probe remote q rest found st1
              \<and> trace st1 = GET u # trace st \<and> \<not> reply_matched (remote (GET u # trace st))"
    using probe_step [OF Cons.prems(1), of remote u rest found] by blast
  from c consider
      (raised) "probe remote q (u # rest) found st = ((Raised PrintFailed, None), st1)"
        "trace st1 = trace st \<or> trace st1 = GET u # trace st"
    | (hit) "probe remote q (u # rest) found st = ((Finished, Some u), st1)"
        "trace st1 = GET u # trace st" "reply_matched (remote (GET u # trace st))"
    | (onward) "probe remote q (u # rest) found st = probe remote q rest found st1"
        "trace st1 = GET u # trace st" "\<not> reply_matched (remote (GET u # trace st))"
    by blast
  then show ?case
  proof cases
    case raised
    with Cons.prems(2) have e: "ending = Raised PrintFailed" "st' = st1" by simp_all
    from raised(2) show ?thesis
    proof
      assume "trace st1 = trace st"
      then show ?thesis using e by (intro exI [of _ 0]) simp
    next
      assume "trace st1 = GET u # trace st"
      then show ?thesis using e by (intro exI [of _ 1]) simp
    qed
  next
    case hit
    with Cons.prems(2) have e: "ending = Finished" "r = Some u" "st' = st1" by simp_all
    show ?thesis using e hit(2,3) by (intro exI [of _ 1]) simp
  next
    case onward
    have s1: "steady q (host st1)" using Cons.prems(1) h by simp
    have p1: "probe remote q rest found st1 = ((ending, r), st')"
      using onward(1) Cons.prems(2) by simp
    from Cons.IH [OF s1 p1] obtain m where m: "m \<le> length rest"
      "trace st' = rev (map GET (take m rest)) @ trace st1"
      "\<forall>j. Suc j < m \<longrightarrow> \<not> reply_matched (probe_reply remote (trace st1) rest j)"
      "ending = Finished \<or> ending = Raised PrintFailed"
      "ending = Finished \<longrightarrow>
         (\<exists>k. m = Suc k \<and> reply_matched (probe_reply remote (trace st1) rest k)
               \<and> r = Some (rest ! k))
         \<or> (m = length rest
             \<and> (\<forall>j<m. \<not> reply_matched (probe_reply remote (trace st1) rest j))
             \<and> r = found)"
      by blast
    have a: "\<forall>j. Suc j < Suc m \<longrightarrow> \<not> reply_matched (probe_reply remote (trace st) (u # rest) j)"
    proof (intro allI impI)
      fix j assume "Suc j < Suc m"
      then show "\<not> reply_matched (probe_reply remote (trace st) (u # rest) j)"
        using m(3) onward(2,3) by (cases j) auto
    qed
    have b: "(\<exists>k. Suc m = Suc k \<and> reply_matched (probe_reply remote (trace st) (u # rest) k)
                   \<and> r = Some ((u # rest) ! k))
             \<or> (Suc m = length (u # rest)
                 \<and> (\<forall>j<Suc m. \<not> reply_matched (probe_reply remote (trace st) (u # rest) j))
                 \<and> r = found)"
      if fin: "ending = Finished"
    proof -
      from m(5) fin consider
          (some) k where "m = Suc k" "reply_matched (probe_reply remote (trace st1) rest k)"
            "r = Some (rest ! k)"
        | (none) "m = length rest"
            "\<forall>j<m. \<not> reply_matched (probe_reply remote (trace st1) rest j)" "r = found"
        by blast
      then show ?thesis
      proof cases
        case some
        then show ?thesis using onward(2) by simp
      next
        case none
        have "\<forall>j<Suc m. \<not> reply_matched (probe_reply remote (trace st) (u # rest) j)"
        proof (intro allI impI)
          fix j assume "j < Suc m"
          then show "\<not> reply_matched (probe_reply remote (trace st) (u # rest) j)"
            using none(2) onward(2,3) by (cases j) auto
        qed
        then show ?thesis using none by simp
      qed
    qed
    show ?thesis
      using m(1,2,4) a b onward(2) by (intro exI [of _ "Suc m"]) simp
  qed
qed

lemma probe_calm_finishes:
  "q \<or> accepting (host st) \<Longrightarrow> fst (fst (probe remote q urls found st)) = Finished"
proof (induction urls arbitrary: st)
  case Nil
  then show ?case by simp
next
  case (Cons u rest)
  obtain p where p: "probe remote q (u # rest) found st =
       (if reply_matched (remote (GET u # trace st))
        then ((Finished, Some u), st\<lparr>trace := GET u # trace st, printed := p\<rparr>)
        else probe remote q rest found (st\<lparr>trace := GET u # trace st, printed := p\<rparr>))"
    using probe_Cons [OF Cons.prems, of remote u rest found] by blast
  have "q \<or> accepting (host (st\<lparr>trace := GET u # trace st, printed := p\<rparr>))"
    using Cons.prems by simp
  from Cons.IH [OF this] show ?case unfolding p by simp
qed

lemma probe_first_match:
  assumes c: "q \<or> accepting (host st)"
    and k: "k < length urls" "reply_matched (probe_reply remote (trace st) urls k)"
      "\<forall>j<k. \<not> reply_matched (probe_reply remote (trace st) urls j)"
  shows "fst (probe remote q urls found st) = (Finished, Some (urls ! k))
         \<and> trace (snd (probe remote q urls found st))
             = rev (map GET (take (Suc k) urls)) @ trace st"
proof -
  obtain ending r st' where p: "probe remote q urls found st = ((ending, r), st')"
    by (cases "probe remote q urls found st") auto
  have s: "steady q (host st)" using c by (auto simp: steady_def)
  have fin: "ending = Finished" using probe_calm_finishes [OF c, of remote urls found] p by simp
  from probe_stops [OF s p] fin obtain m where m: "m \<le> length urls"
    "trace st' = rev (map GET (take m urls)) @ trace st"
    "\<forall>j. Suc j < m \<longrightarrow> \<not> reply_matched (probe_reply remote (trace st) urls j)"
    "(\<exists>k'. m = Suc k' \<and> reply_matched (probe_reply remote (trace st) urls k')
            \<and> r = Some (urls ! k'))
     \<or> (m = length urls
         \<and> (\<forall>j<m. \<not> reply_matched (probe_reply remote (trace st) urls j))
         \<and> r = found)"
    by blast
  from m(4) show ?thesis
  proof
    assume "\<exists>k'. m = Suc k' \<and> reply_matched (probe_reply remote (trace st) urls k')
            \<and> r = Some (urls ! k')"
    then obtain k' where k': "m = Suc k'" "reply_matched (probe_reply remote (trace st) urls k')"
      "r = Some (urls ! k')" by blast
    have "\<not> k' < k" using k(3) k'(2) by blast
    moreover have "\<not> k < k'"
    proof
      assume "k < k'"
      then have "Suc k < m" using k'(1) by simp
      then show False using m(3) k(2) by blast
    qed
    ultimately have "k' = k" by simp
    then show ?thesis using p fin k' m(2) by simp
  next
    assume "m = length urls
         \<and> (\<forall>j<m. \<not> reply_matched (probe_reply remote (trace st) urls j))
         \<and> r = found"
    then have False using k(1,2) by blast
    then show ?thesis ..
  qed
qed

lemma probe_no_match:
  assumes c: "q \<or> accepting (host st)"
    and n: "\<forall>j<length urls. \<not> reply_matched (probe_reply remote (trace st) urls j)"
  shows "fst (probe remote q urls found st) = (Finished, found)
         \<and> trace (snd (probe remote q urls found st)) = rev (map GET urls) @ trace st"
proof -
  obtain ending r st' where p: "probe remote q urls found st = ((ending, r), st')"
    by (cases "probe remote q urls found st") auto
  have s: "steady q (host st)" using c by (auto simp: steady_def)
  have fin: "ending = Finished" using probe_calm_finishes [OF c, of remote urls found] p by simp
  from probe_stops [OF s p] fin obtain m where m: "m \<le> length urls"
    "trace st' = rev (map GET (take m urls)) @ trace st"
    "(\<exists>k'. m = Suc k' \<and> reply_matched (probe_reply remote (trace st) urls k')
            \<and> r = Some (urls ! k'))
     \<or> (m = length urls
         \<and> (\<forall>j<m. \<not> reply_matched (probe_reply remote (trace st) urls j))
         \<and> r = found)"
    by blast
  from m(3) show ?thesis
  proof
    assume "\<exists>k'. m = Suc k' \<and> reply_matched (probe_reply remote (trace st) urls k')
            \<and> r = Some (urls ! k')"
    then obtain k' where k': "m = Suc k'" "reply_matched (probe_reply remote (trace st) urls k')"
      by blast
    then have "k' < length urls" using m(1) by simp
    then have False using n k'(2) by blast
    then show ?thesis ..
  next
    assume "m = length urls
         \<and> (\<forall>j<m. \<not> reply_matched (probe_reply remote (trace st) urls j))
         \<and> r = found"
    then show ?thesis using p fin m(2) by simp
  qed
qed

lemma probe_prefix:
  assumes s: "steady q (host st)"
  shows "\<exists>m\<le>length urls.
           trace (snd (probe remote q urls found st)) = rev (map GET (take m urls)) @ trace st
           \<and> (\<forall>j. Suc j < m \<longrightarrow> \<not> reply_matched (probe_reply remote (trace st) urls j))
           \<and> (fst (fst (probe remote q urls found st)) = Finished
              \<or> fst (fst (probe remote q urls found st)) = Raised PrintFailed)"
proof -
  obtain ending r st' where p: "probe remote q urls found st = ((ending, r), st')"
    by (cases "probe remote q urls found st") auto
  from probe_stops [OF s p] show ?thesis unfolding p by auto
qed

section \<open>Facts about the counters\<close>

lemma tally_framed: "framed st st' \<Longrightarrow> tally n st' = tally n st"
  by (simp add: tally_def framed_def)

lemma tally_print_line [simp]: "tally n (print_line l st) = tally n st"
  by (simp add: tally_def)

lemma tally_item_count [simp]: "tally n (st\<lparr>item_count := c\<rparr>) = tally n st"
  by (simp add: tally_def)

lemma framed_get_filename [simp]: "framed st (snd (get_filename_from_headers remote url st))"
  by (simp add: get_filename_from_headers_def send_def framed_def split: reply.splits)

lemma framed_next_page [simp]: "framed st (snd (next_page remote b url st))"
  by (simp add: next_page_def send_def framed_def split: reply.splits option.splits)

lemma resolve_conflict_free:
  "resolve_conflict h fs np f c = Some d \<Longrightarrow> \<not> has_file fs d"
proof (induction h fs np f c rule: resolve_conflict.induct)
  case (1 h fs name_part filename counter)
  show ?case
  proof (cases "dest_exists h fs filename")
    case None
    then show ?thesis using "1.prems" by (subst (asm) resolve_conflict.simps) simp
  next
    case (Some b)
    show ?thesis
    proof (cases b)
      case True
      have "resolve_conflict h fs name_part (numbered name_part counter) (counter + 1) = Some d"
        using "1.prems" Some True by (subst (asm) resolve_conflict.simps) simp
      then show ?thesis using "1.IH" Some True by simp
    next
      case False
      then have "d = filename"
        using "1.prems" Some by (subst (asm) resolve_conflict.simps) simp
      then show ?thesis using Some False by (simp add: dest_exists_def split: if_splits)
    qed
  qed
qed

lemma write_bytes_new: "\<not> has_file fs p \<Longrightarrow> write_bytes p c fs = fs @ [(p, c)]"
  by (induction fs) (auto simp: has_file_def)

lemma download_cases:
  "(fst (download remote url dest st) = False \<and> framed st (snd (download remote url dest st)))
   \<or> (\<exists>r :: response. fst (download remote url dest st) = True
          \<and> snd (download remote url dest st)
              = st\<lparr>trace := GET url # trace st, files := write_bytes dest (body_content r) (files st)\<rparr>)"
proof (cases "remote (GET url # trace st)")
  case Failed
  then show ?thesis by (simp add: download_def send_def framed_def)
next
  case (Reply r)
  show ?thesis
  proof (cases "(400 \<le> status_code r \<and> status_code r < 600)
                \<or> \<not> write_ok (host st) (files st) dest (body_content r)")
    case True
    then show ?thesis using Reply by (auto simp: download_def send_def framed_def)
  next
    case False
    then have "fst (download remote url dest st) = True
          \<and> snd (download remote url dest st)
              = st\<lparr>trace := GET url # trace st, files := write_bytes dest (body_content r) (files st)\<rparr>"
      using Reply by (auto simp: download_def send_def)
    then show ?thesis by (intro disjI2 exI [where x = r])
  qed
qed

lemma count_saved_tally:
  assumes "length (files st) = Suc (n + total_saved st)"
    "total_saved st = files_with_original_names st + files_with_generated_names st"
  shows "tally n (count_saved original st)"
  using assms by (simp add: tally_def count_saved_def)

lemma store_tally:
  assumes "tally n st"
  shows "tally n (snd (store remote q src original filename name_part st))"
proof (cases "resolve_conflict (host st) (files st) name_part filename 1")
  case None
  then show ?thesis using assms by (simp add: store_def)
next
  case (Some dest)
  have free: "\<not> has_file (files st) dest" using Some by (rule resolve_conflict_free)
  show ?thesis
  proof (cases "if \<not> q \<and> dest \<noteq> filename then try_print (ConflictResolved dest) st else Some st")
    case None
    then show ?thesis using assms Some by (simp add: store_def)
  next
    case s1: (Some st1)
    have f1: "framed st st1" using s1 by (auto split: if_splits dest: try_print_framed)
    have e: "store remote q src original filename name_part st =
               (case download remote src dest st1 of
                  (True, st2) \<Rightarrow>
                    (case print_unless q (Saved dest) (count_saved original st2) of
                       None \<Rightarrow> (Finished, report_failure src (count_saved original st2))
                     | Some st3 \<Rightarrow> (Finished, st3))
                | (False, st2) \<Rightarrow> (Finished, report_failure src st2))"
      by (simp only: store_def Some option.case s1)
    have t1: "tally n st1" using f1 assms by (simp add: tally_framed)
    have fs1: "files st1 = files st" using f1 by (simp add: framed_def)
    obtain ok st2 where d: "download remote src dest st1 = (ok, st2)"
      by (cases "download remote src dest st1")
    show ?thesis
    proof (cases ok)
      case False
      then have "framed st1 st2" using download_cases [of remote src dest st1] d by auto
      then have "tally n st2" using t1 by (simp add: tally_framed)
      then show ?thesis
        unfolding e using d False by (simp add: report_failure_def tally_framed)
    next
      case True
      then obtain r :: response where st2: "st2 = st1\<lparr>trace := GET src # trace st1,
          files := write_bytes dest (body_content r) (files st1)\<rparr>"
        using download_cases [of remote src dest st1] d by auto
      have "write_bytes dest (body_content r) (files st1) = files st1 @ [(dest, body_content r)]"
        using free fs1 by (simp add: write_bytes_new)
      then have c: "tally n (count_saved original st2)"
        using t1 by (intro count_saved_tally) (simp_all add: st2 tally_def)
      show ?thesis
      proof (cases "print_unless q (Saved dest) (count_saved original st2)")
        case None
        then show ?thesis
          unfolding e using d True c by (simp add: report_failure_def tally_framed)
      next
        case s3: (Some st3)
        then have "framed (count_saved original st2) st3" by (auto dest: print_unless_framed)
        then have "tally n st3" using c by (simp add: tally_framed)
        then show ?thesis
          unfolding e using d True s3 by simp
      qed
    qed
  qed
qed

lemma use_item_id_tally:
  assumes "tally n st"
  shows "tally n (snd (use_item_id remote q ident src st))"
proof (cases ident)
  case None
  then show ?thesis using assms by (simp add: use_item_id_def)
next
  case (Some i)
  show ?thesis
  proof (cases "print_unless q UsingItemId st")
    case None
    then show ?thesis using assms Some by (simp add: use_item_id_def)
  next
    case s1: (Some st1)
    then have "tally n st1" using assms print_unless_framed [OF s1, THEN conjunct1] by (simp add: tally_framed)
    then show ?thesis using Some s1 by (simp add: use_item_id_def store_tally)
  qed
qed

lemma save_item_tally:
  assumes "tally n st"
  shows "tally n (snd (save_item remote q ident src st))"
proof -
  obtain name st1 where g: "get_filename_from_headers remote src st = (name, st1)"
    by (cases "get_filename_from_headers remote src st")
  have t1: "tally n st1"
    using framed_get_filename [of st remote src] g assms by (simp add: tally_framed)
  show ?thesis
  proof (cases name)
    case None
    then show ?thesis using g t1 by (simp add: save_item_def use_item_id_tally)
  next
    case (Some original_filename)
    show ?thesis
    proof (cases "original_filename = []")
      case True
      then show ?thesis using g Some t1 by (simp add: save_item_def use_item_id_tally)
    next
      case False
      show ?thesis
      proof (cases "print_unless q (OriginalFilename original_filename) st1")
        case None
        then show ?thesis using g Some False t1 by (simp add: save_item_def)
      next
        case s2: (Some st2)
        then have "tally n st2" using t1 print_unless_framed [OF s2, THEN conjunct1] by (simp add: tally_framed)
        then show ?thesis
          using g Some False s2 by (simp add: save_item_def Let_def store_tally)
      qed
    qed
  qed
qed

lemma probe_tally: "tally n st \<Longrightarrow> tally n (snd (probe remote q urls found st))"
  using probe_frame [of st remote q urls found] by (simp add: tally_framed)

lemma no_svg_tally:
  assumes "tally n st"
  shows "tally n (snd (case print_unless q NoSvg st of
                         None \<Rightarrow> (Raised PrintFailed, st)
                       | Some st3 \<Rightarrow> (Finished, st3)))"
proof (cases "print_unless q NoSvg st")
  case None
  then show ?thesis using assms by simp
next
  case (Some st3)
  then show ?thesis using assms print_unless_framed [OF Some, THEN conjunct1] by (simp add: tally_framed)
qed

lemma locate_and_save_tally:
  assumes "tally n st"
  shows "tally n (snd (locate_and_save remote q item_type ident u st))"
proof -
  let ?src = "case u of Url s \<Rightarrow> s | _ \<Rightarrow> []"
  let ?shown = "case ident of None \<Rightarrow> ''unknown'' | Some i \<Rightarrow> i"
  show ?thesis
  proof (cases "print_unless q (Found item_type ?shown ?src) st")
    case None
    then show ?thesis using assms by (simp add: locate_and_save_def)
  next
    case (Some st1)
    then have t1: "tally n st1" using assms print_unless_framed [OF Some, THEN conjunct1] by (simp add: tally_framed)
    show ?thesis
    proof (cases "u = BadUrl")
      case True
      then show ?thesis using Some t1 by (simp add: locate_and_save_def)
    next
      case False
      obtain ending r st2 where p: "probe remote q (download_urls_to_try ?src) None st1 = ((ending, r), st2)"
        by (cases "probe remote q (download_urls_to_try ?src) None st1") auto
      have t2: "tally n st2"
        using probe_tally [OF t1, of remote q "download_urls_to_try ?src" None] p by simp
      have e: "locate_and_save remote q item_type ident u st =
                 (case ((ending, r), st2) of
                    ((Finished, Some successful_url), st2) \<Rightarrow>
                      if successful_url = [] then
                        (case print_unless q NoSvg st2 of
                           None \<Rightarrow> (Raised PrintFailed, st2)
                         | Some st3 \<Rightarrow> (Finished, st3))
                      else save_item remote q ident successful_url st2
                  | ((Finished, None), st2) \<Rightarrow>
                      (case print_unless q NoSvg st2 of
                         None \<Rightarrow> (Raised PrintFailed, st2)
                       | Some st3 \<Rightarrow> (Finished, st3))
                  | ((ending, r), st2) \<Rightarrow> (ending, st2))"
        unfolding locate_and_save_def Let_def Some using False p by simp
      show ?thesis
        unfolding e using t2 no_svg_tally [OF t2, of q] save_item_tally [OF t2]
        by (cases ending; cases r) simp_all
    qed
  qed
qed

lemma process_item_tally:
  assumes "tally n st"
  shows "tally n (snd (process_item remote q item_type item st))"
proof -
  have "tally n (st\<lparr>item_count := item_count st + 1\<rparr>)" using assms by simp
  then show ?thesis
    by (auto simp: process_item_def Let_def locate_and_save_tally
        split: item.splits data_field.splits)
qed

lemma process_items_tally:
  "tally n st \<Longrightarrow> tally n (snd (process_items remote q item_type items st))"
proof (induction items arbitrary: st)
  case Nil
  then show ?case by simp
next
  case (Cons item items)
  obtain e st1 where p: "process_item remote q item_type item st = (e, st1)"
    by (cases "process_item remote q item_type item st")
  have "tally n st1" using process_item_tally [OF Cons.prems, of remote q item_type item] p by simp
  then show ?case using p Cons.IH by (cases e) simp_all
qed

lemma scan_from_tally:
  "tally n st \<Longrightarrow> tally n (snd (scan_from fuel remote a item_type url st))"
proof (induction fuel arbitrary: url st)
  case 0
  then show ?case by simp
next
  case (Suc fuel)
  obtain r st1 where np: "next_page remote (board a) url st = (r, st1)"
    by (cases "next_page remote (board a) url st")
  have t1: "tally n st1"
    using framed_next_page [of st remote "board a" url] np Suc.prems by (simp add: tally_framed)
  show ?case
  proof (cases r)
    case (Inl e)
    then show ?thesis using np t1 by simp
  next
    case (Inr pg)
    obtain items nxt where pg: "pg = (items, nxt)" by (cases pg)
    obtain e st2 where pi: "process_items remote (quiet a) item_type items st1 = (e, st2)"
      by (cases "process_items remote (quiet a) item_type items st1")
    have t2: "tally n st2"
      using process_items_tally [OF t1, of remote "quiet a" item_type items] pi by simp
    show ?thesis using np Inr pg pi t2 Suc.IH
      by (cases e; cases nxt) simp_all
  qed
qed

lemma scan_type_tally:
  assumes "tally n st"
  shows "tally n (snd (scan_type fuel remote a item_type st))"
proof (cases "try_print (Scanning item_type) st")
  case None
  then show ?thesis using assms by (simp add: scan_type_def)
next
  case (Some st0)
  then have t0: "tally n (st0\<lparr>item_count := 0\<rparr>)"
    using assms try_print_framed [OF Some, THEN conjunct1] by (simp add: tally_framed)
  obtain e st1 where s: "scan_from fuel remote a item_type (first_url (board a) item_type)
      (st0\<lparr>item_count := 0\<rparr>) = (e, st1)"
    by (cases "scan_from fuel remote a item_type (first_url (board a) item_type) (st0\<lparr>item_count := 0\<rparr>)")
  have t1: "tally n st1"
    using scan_from_tally [OF t0, of fuel remote a item_type "first_url (board a) item_type"] s
    by simp
  show ?thesis
  proof (cases e)
    case Finished
    show ?thesis
    proof (cases "try_print (TotalFound item_type (item_count st1)) st1")
      case None
      then show ?thesis using Some s Finished t1 by (simp add: scan_type_def)
    next
      case s2: (Some st2)
      then have "tally n st2" using t1 try_print_framed [OF s2, THEN conjunct1] by (simp add: tally_framed)
      then show ?thesis using Some s Finished s2 by (simp add: scan_type_def)
    qed
  next
    case (Raised x)
    then show ?thesis using Some s t1 by (simp add: scan_type_def)
  next
    case Diverged
    then show ?thesis using Some s t1 by (simp add: scan_type_def)
  qed
qed

lemma scan_types_tally:
  "tally n st \<Longrightarrow> tally n (snd (scan_types fuel remote a types st))"
proof (induction types arbitrary: st)
  case Nil
  then show ?case by simp
next
  case (Cons t ts)
  obtain e st1 where s: "scan_type fuel remote a t st = (e, st1)"
    by (cases "scan_type fuel remote a t st")
  have "tally n st1" using scan_type_tally [OF Cons.prems, of fuel remote a t] s by simp
  then show ?case using s Cons.IH by (cases e) simp_all
qed

lemma summary_framed: "framed st (snd (summary st))"
  by (auto simp: summary_def framed_def split: option.splits dest!: try_print_Some)

section \<open>Facts about the quiet flag\<close>

lemma same_accepting: "same st st' \<Longrightarrow> accepting (host st) \<and> accepting (host st')"
  by (simp add: same_def)

lemma same_print_line [simp]:
  "same (print_line l st) st' = same st st'" "same st (print_line l st') = same st st'"
  by (simp_all add: same_def)

lemma same_shown [simp]:
  "same (shown q l st) st' = same st st'" "same st (shown q l st') = same st st'"
  by (simp_all add: same_def)

lemma same_item_count:
  "same st st' \<Longrightarrow> same (st\<lparr>item_count := c\<rparr>) (st'\<lparr>item_count := c\<rparr>)"
  by (simp add: same_def)

lemma try_print_same:
  "same st st' \<Longrightarrow> try_print l st = Some (print_line l st) \<and> try_print l st' = Some (print_line l st')"
  by (simp add: same_def try_print_accepting)

lemma print_unless_same:
  "same st st' \<Longrightarrow>
     print_unless q l st = Some (shown q l st) \<and> print_unless q' l st' = Some (shown q' l st')"
  by (simp add: same_def print_unless_calm)

lemma probe_same:
  "same st st' \<Longrightarrow>
     fst (probe remote q urls found st) = fst (probe remote q' urls found st')
     \<and> same (snd (probe remote q urls found st)) (snd (probe remote q' urls found st'))"
proof (induction urls arbitrary: st st')
  case Nil
  then show ?case by simp
next
  case (Cons url rest)
  have tr: "trace st = trace st'" using Cons.prems by (simp add: same_def)
  have c: "q \<or> accepting (host st)" "q' \<or> accepting (host st')"
    using Cons.prems by (simp_all add: same_def)
  obtain pr where p: "probe remote q (url # rest) found st =
       (if reply_matched (remote (GET url # trace st))
        then ((Finished, Some url), st\<lparr>trace := GET url # trace st, printed := pr\<rparr>)
        else probe remote q rest found (st\<lparr>trace := GET url # trace st, printed := pr\<rparr>))"
    using probe_Cons [OF c(1), where u=url and remote=remote and rest=rest and found=found] by blast
  obtain pr' where p': "probe remote q' (url # rest) found st' =
       (if reply_matched (remote (GET url # trace st'))
        then ((Finished, Some url), st'\<lparr>trace := GET url # trace st', printed := pr'\<rparr>)
        else probe remote q' rest found (st'\<lparr>trace := GET url # trace st', printed := pr'\<rparr>))"
    using probe_Cons [OF c(2), where u=url and remote=remote and rest=rest and found=found] by blast
  have s: "same (st\<lparr>trace := GET url # trace st, printed := pr\<rparr>)
                (st'\<lparr>trace := GET url # trace st', printed := pr'\<rparr>)"
    using Cons.prems by (simp add: same_def)
  show ?case
    unfolding p p' using s Cons.IH [OF s] tr by simp
qed

lemma get_filename_same:
  "same st st' \<Longrightarrow>
     fst (get_filename_from_headers remote url st) = fst (get_filename_from_headers remote url st')
     \<and> same (snd (get_filename_from_headers remote url st))
              (snd (get_filename_from_headers remote url st'))"
  by (auto simp: get_filename_from_headers_def send_def same_def split: reply.splits)

lemma download_same:
  "same st st' \<Longrightarrow>
     fst (download remote url dest st) = fst (download remote url dest st')
     \<and> same (snd (download remote url dest st)) (snd (download remote url dest st'))"
  by (auto simp: download_def send_def same_def split: reply.splits)

lemma count_saved_same:
  "same st st' \<Longrightarrow> same (count_saved b st) (count_saved b st')"
  by (simp add: count_saved_def same_def)

lemma store_same:
  assumes "same st st'"
  shows "fst (store remote q src original filename name_part st)
           = fst (store remote q' src original filename name_part st')
         \<and> same (snd (store remote q src original filename name_part st))
                 (snd (store remote q' src original filename name_part st'))"
proof -
  have f: "files st' = files st" "host st' = host st" using assms by (simp_all add: same_def)
  have acc: "accepting (host st)" "accepting (host st')" using assms by (simp_all add: same_def)
  show ?thesis
  proof (cases "resolve_conflict (host st) (files st) name_part filename 1")
    case None
    then show ?thesis using assms f by (simp add: store_def)
  next
    case (Some dest)
    let ?st1 = "if \<not> q \<and> dest \<noteq> filename then print_line (ConflictResolved dest) st else st"
    let ?st1' = "if \<not> q' \<and> dest \<noteq> filename then print_line (ConflictResolved dest) st' else st'"
    have s1: "same ?st1 ?st1'" using assms by simp
    obtain ok st2 where d: "download remote src dest ?st1 = (ok, st2)"
      by (cases "download remote src dest ?st1")
    obtain ok' st2' where d': "download remote src dest ?st1' = (ok', st2')"
      by (cases "download remote src dest ?st1'")
    from download_same [OF s1, of remote src dest] d d'
    have e: "ok' = ok" "same st2 st2'" by simp_all
    have c: "same (count_saved original st2) (count_saved original st2')"
      using e by (simp add: count_saved_same)
    have a: "store remote q src original filename name_part st =
            (if ok then (Finished, shown q (Saved dest) (count_saved original st2))
             else (Finished, report_failure src st2))"
      using d print_unless_same [OF c, of q "Saved dest" q'] Some acc
      by (auto simp: store_def try_print_accepting)
    have a': "store remote q' src original filename name_part st' =
            (if ok' then (Finished, shown q' (Saved dest) (count_saved original st2'))
             else (Finished, report_failure src st2'))"
      using d' print_unless_same [OF c, of q "Saved dest" q'] Some acc f
      by (auto simp: store_def try_print_accepting)
    show ?thesis unfolding a a' using e c by (simp add: report_failure_def)
  qed
qed

lemma use_item_id_same:
  assumes "same st st'"
  shows "fst (use_item_id remote q ident src st) = fst (use_item_id remote q' ident src st')
     \<and> same (snd (use_item_id remote q ident src st)) (snd (use_item_id remote q' ident src st'))"
proof (cases ident)
  case None
  then show ?thesis using assms by (simp add: use_item_id_def)
next
  case (Some i)
  have s: "same (shown q UsingItemId st) (shown q' UsingItemId st')" using assms by simp
  show ?thesis
    using Some print_unless_same [OF assms, of q UsingItemId q'] store_same [OF s]
    by (simp add: use_item_id_def)
qed

lemma save_item_same:
  assumes "same st st'"
  shows "fst (save_item remote q ident src st) = fst (save_item remote q' ident src st')
     \<and> same (snd (save_item remote q ident src st)) (snd (save_item remote q' ident src st'))"
proof -
  obtain name st1 where g: "get_filename_from_headers remote src st = (name, st1)"
    by (cases "get_filename_from_headers remote src st")
  obtain name' st1' where g': "get_filename_from_headers remote src st' = (name', st1')"
    by (cases "get_filename_from_headers remote src st'")
  from get_filename_same [OF assms, of remote src] g g'
  have e: "name' = name" "same st1 st1'" by simp_all
  show ?thesis
  proof (cases name)
    case None
    then show ?thesis
      using g g' e use_item_id_same [OF e(2), of remote q ident src q']
      by (simp add: save_item_def)
  next
    case (Some n)
    show ?thesis
    proof (cases "n = []")
      case True
      then show ?thesis
        using Some g g' e use_item_id_same [OF e(2), of remote q ident src q']
        by (simp add: save_item_def)
    next
      case False
      have "same (shown q (OriginalFilename n) st1) (shown q' (OriginalFilename n) st1')"
        using e by simp
      from store_same [OF this] show ?thesis
        using Some False g g' e print_unless_same [OF e(2), of q "OriginalFilename n" q']
        by (simp add: save_item_def Let_def)
    qed
  qed
qed

lemma locate_and_save_same:
  assumes "same st st'"
  shows "fst (locate_and_save remote q item_type ident u st)
           = fst (locate_and_save remote q' item_type ident u st')
     \<and> same (snd (locate_and_save remote q item_type ident u st))
              (snd (locate_and_save remote q' item_type ident u st'))"
proof -
  let ?src = "case u of Url s \<Rightarrow> s | _ \<Rightarrow> []"
  let ?shown = "case ident of None \<Rightarrow> ''unknown'' | Some i \<Rightarrow> i"
  let ?st1 = "shown q (Found item_type ?shown ?src) st"
  let ?st1' = "shown q' (Found item_type ?shown ?src) st'"
  have s1: "same ?st1 ?st1'" using assms by simp
  note pr = print_unless_same [OF assms, of q "Found item_type ?shown ?src" q']
  show ?thesis
  proof (cases "u = BadUrl")
    case True
    then show ?thesis using pr s1 by (simp add: locate_and_save_def)
  next
    case False
    obtain ending r st2 where p: "probe remote q (download_urls_to_try ?src) None ?st1 = ((ending, r), st2)"
      by (cases "probe remote q (download_urls_to_try ?src) None ?st1") auto
    obtain ending' r' st2' where p': "probe remote q' (download_urls_to_try ?src) None ?st1' = ((ending', r'), st2')"
      by (cases "probe remote q' (download_urls_to_try ?src) None ?st1'") auto
    from probe_same [OF s1, of remote q "download_urls_to_try ?src" None q'] p p'
    have e: "ending' = ending" "r' = r" "same st2 st2'" by simp_all
    have fin: "ending = Finished"
      using probe_calm_finishes [of q ?st1 remote "download_urls_to_try ?src" None] p assms
      by (simp add: same_def)
    note pn = print_unless_same [OF e(3), of q NoSvg q']
    have a: "locate_and_save remote q item_type ident u st =
            (case r of None \<Rightarrow> (Finished, shown q NoSvg st2)
             | Some su \<Rightarrow> if su = [] then (Finished, shown q NoSvg st2)
                         else save_item remote q ident su st2)"
      unfolding locate_and_save_def Let_def using pr False p fin pn
      by (simp split: option.splits)
    have a': "locate_and_save remote q' item_type ident u st' =
            (case r' of None \<Rightarrow> (Finished, shown q' NoSvg st2')
             | Some su \<Rightarrow> if su = [] then (Finished, shown q' NoSvg st2')
                         else save_item remote q' ident su st2')"
      unfolding locate_and_save_def Let_def using pr False p' fin e pn
      by (simp split: option.splits)
    show ?thesis
      unfolding a a' using e save_item_same [OF e(3)] by (auto split: option.splits)
  qed
qed

lemma process_item_same:
  assumes "same st st'"
  shows "fst (process_item remote q item_type item st) = fst (process_item remote q' item_type item st')
     \<and> same (snd (process_item remote q item_type item st))
              (snd (process_item remote q' item_type item st'))"
proof -
  have s0: "same (st\<lparr>item_count := item_count st + 1\<rparr>) (st'\<lparr>item_count := item_count st' + 1\<rparr>)"
    using assms by (simp add: same_def)
  show ?thesis
    using s0 locate_and_save_same [OF s0]
    by (simp add: process_item_def Let_def split: item.splits data_field.splits)
qed

lemma process_items_same:
  "same st st' \<Longrightarrow>
     fst (process_items remote q item_type items st) = fst (process_items remote q' item_type items st')
     \<and> same (snd (process_items remote q item_type items st))
              (snd (process_items remote q' item_type items st'))"
proof (induction items arbitrary: st st')
  case Nil
  then show ?case by simp
next
  case (Cons item items)
  obtain e st1 where p: "process_item remote q item_type item st = (e, st1)"
    by (cases "process_item remote q item_type item st")
  obtain e' st1' where p': "process_item remote q' item_type item st' = (e', st1')"
    by (cases "process_item remote q' item_type item st'")
  from process_item_same [OF Cons.prems, of remote q item_type item q'] p p'
  have s: "e' = e" "same st1 st1'" by simp_all
  show ?case using p p' s Cons.IH [OF s(2)] by (cases e) simp_all
qed

lemma next_page_same:
  "same st st' \<Longrightarrow>
     fst (next_page remote b url st) = fst (next_page remote b url st')
     \<and> same (snd (next_page remote b url st)) (snd (next_page remote b url st'))"
  by (auto simp: next_page_def send_def same_def split: reply.splits option.splits)

lemma scan_from_same:
  "same st st' \<Longrightarrow> board a = board a' \<Longrightarrow>
     fst (scan_from fuel remote a item_type url st) = fst (scan_from fuel remote a' item_type url st')
     \<and> same (snd (scan_from fuel remote a item_type url st))
              (snd (scan_from fuel remote a' item_type url st'))"
proof (induction fuel arbitrary: url st st')
  case 0
  then show ?case by simp
next
  case (Suc fuel)
  obtain r st1 where np: "next_page remote (board a) url st = (r, st1)"
    by (cases "next_page remote (board a) url st")
  obtain r' st1' where np': "next_page remote (board a') url st' = (r', st1')"
    by (cases "next_page remote (board a') url st'")
  from next_page_same [OF Suc.prems(1), of remote "board a" url] np np' Suc.prems(2)
  have e1: "r' = r" "same st1 st1'" by simp_all
  show ?case
  proof (cases r)
    case (Inl e)
    then show ?thesis using np np' e1 by simp
  next
    case (Inr pg)
    obtain items nxt where pg: "pg = (items, nxt)" by (cases pg)
    obtain e st2 where pi: "process_items remote (quiet a) item_type items st1 = (e, st2)"
      by (cases "process_items remote (quiet a) item_type items st1")
    obtain e' st2' where pi': "process_items remote (quiet a') item_type items st1' = (e', st2')"
      by (cases "process_items remote (quiet a') item_type items st1'")
    from process_items_same [OF e1(2), of remote "quiet a" item_type items "quiet a'"] pi pi'
    have e2: "e' = e" "same st2 st2'" by simp_all
    show ?thesis
      using np np' e1 Inr pg pi pi' e2 Suc.IH [OF e2(2) Suc.prems(2)]
      by (cases e; cases nxt) simp_all
  qed
qed

lemma scan_type_same:
  assumes "same st st'" "board a = board a'"
  shows "fst (scan_type fuel remote a item_type st) = fst (scan_type fuel remote a' item_type st')
     \<and> same (snd (scan_type fuel remote a item_type st))
              (snd (scan_type fuel remote a' item_type st'))"
proof -
  let ?st0 = "(print_line (Scanning item_type) st)\<lparr>item_count := 0\<rparr>"
  let ?st0' = "(print_line (Scanning item_type) st')\<lparr>item_count := 0\<rparr>"
  have s0: "same ?st0 ?st0'" using assms(1) by (simp add: same_def print_line_def)
  obtain e st1 where s: "scan_from fuel remote a item_type (first_url (board a) item_type) ?st0 = (e, st1)"
    by (cases "scan_from fuel remote a item_type (first_url (board a) item_type) ?st0")
  obtain e' st1' where s': "scan_from fuel remote a' item_type (first_url (board a') item_type) ?st0' = (e', st1')"
    by (cases "scan_from fuel remote a' item_type (first_url (board a') item_type) ?st0'")
  from scan_from_same [OF s0 assms(2), of fuel remote item_type "first_url (board a) item_type"] s s' assms(2)
  have e: "e' = e" "same st1 st1'" by simp_all
  then have ic: "item_count st1' = item_count st1" by (simp add: same_def)
  show ?thesis
    using s s' e ic try_print_same [OF assms(1), of "Scanning item_type"]
      try_print_same [OF e(2), of "TotalFound item_type (item_count st1)"]
    by (cases e) (simp_all add: scan_type_def)
qed

lemma scan_types_same:
  "same st st' \<Longrightarrow> board a = board a' \<Longrightarrow>
     fst (scan_types fuel remote a types st) = fst (scan_types fuel remote a' types st')
     \<and> same (snd (scan_types fuel remote a types st)) (snd (scan_types fuel remote a' types st'))"
proof (induction types arbitrary: st st')
  case Nil
  then show ?case by simp
next
  case (Cons t ts)
  obtain e st1 where s: "scan_type fuel remote a t st = (e, st1)"
    by (cases "scan_type fuel remote a t st")
  obtain e' st1' where s': "scan_type fuel remote a' t st' = (e', st1')"
    by (cases "scan_type fuel remote a' t st'")
  from scan_type_same [OF Cons.prems, of fuel remote t] s s'
  have e: "e' = e" "same st1 st1'" by simp_all
  show ?case using s s' e Cons.IH [OF e(2) Cons.prems(2)] by (cases e) simp_all
qed

lemma summary_same:
  assumes "same st st'"
  shows "fst (summary st) = fst (summary st') \<and> same (snd (summary st)) (snd (summary st'))"
proof -
  have a: "accepting (host st)" "accepting (host st')" using assms by (simp_all add: same_def)
  have t: "total_saved st' = total_saved st" using assms by (simp add: same_def)
  show ?thesis
    using assms t by (simp add: summary_def try_print_accepting a)
qed

lemma main_same:
  assumes "board a = board a'" "accepting h"
  shows "fst (main fuel remote a h fs) = fst (main fuel remote a' h fs)
     \<and> same (snd (main fuel remote a h fs)) (snd (main fuel remote a' h fs))"
proof -
  have i: "same (initial h fs) (initial h fs)" using assms(2) by (simp add: same_def initial_def)
  obtain e st where s: "scan_types fuel remote a scanned_types (initial h fs) = (e, st)"
    by (cases "scan_types fuel remote a scanned_types (initial h fs)")
  obtain e' st' where s': "scan_types fuel remote a' scanned_types (initial h fs) = (e', st')"
    by (cases "scan_types fuel remote a' scanned_types (initial h fs)")
  from scan_types_same [OF i assms(1), of fuel remote scanned_types] s s'
  have e: "e' = e" "same st st'" by simp_all
  show ?thesis using s s' e summary_same [OF e(2)] by (cases e) (simp_all add: main_def)
qed

section \<open>The sample run\<close>

lemmas eval_defs = example_remote_def plain_def two_items_def first_url_def cursor_url_def API_ROOT_def
  download_urls_to_try_def send_def print_unless_def try_print_def print_line_def matched_def
  is_svg_content_def content_type_def lower_def lower_char_def char_of_eq_iff strip_by_def ustr_def
  py_isspace_def initial_def Let_def reply_matched_def probe_reply_def try_candidate_def
  plain_host_def cp1252_host_def

lemmas run_defs = eval_defs example_args_def main_def scanned_types_def scan_type_def
  next_page_def process_item_def locate_and_save_def save_item_def use_item_id_def store_def
  get_filename_from_headers_def download_def count_saved_def summary_def has_file_def
  dest_exists_def report_failure_def preview_def
  resolve_conflict.simps str_nat.simps numbered_def sanitize_def replace_illegal_def
  illegal_char_def dot_or_space_def endswith_def rsplit_head_def isspace_char_def digit_char_def
  numeral_3_eq_3

lemma example_run:
  "main 3 (example_remote None) example_args plain_host [] =
     (Finished,
      \<lparr>trace =
         [GET ''https://api.miro.com/v2/boards/b/items?type=app_card&limit=50'',
          GET ''https://api.miro.com/v2/boards/b/items?type=frame&limit=50'',
          GET ''https://api.miro.com/v2/boards/b/items?type=text&limit=50'',
          GET ''https://api.miro.com/v2/boards/b/items?type=sticky_note&limit=50'',
          GET ''https://api.miro.com/v2/boards/b/items?type=shape&limit=50'',
          GET ''https://api.miro.com/v2/boards/b/items?type=document&limit=50'',
          GET ''https://api.miro.com/v2/boards/b/items?cursor=c1'',
          GET ''https://r/x?format=original'',
          HEAD ''https://r/x?format=original'',
          GET ''https://r/x?format=original'',
          GET ''https://r/x?redirect=true'',
          GET ''https://r/x?format=original&redirect=true'',
          GET ''https://r/x?format=original'',
          HEAD ''https://r/x?format=original'',
          GET ''https://r/x?format=original'',
          GET ''https://r/x?redirect=true'',
          GET ''https://r/x?format=original&redirect=true'',
          GET ''https://api.miro.com/v2/boards/b/items?type=image&limit=50''],
       files = [(''42.svg'', ''<svg/>''), (''43.svg'', ''<svg/>'')],
       printed =
         [UsedGenerated 2, KeptOriginal 0, Done 2, TotalFound ''app_card'' 0,
          Scanning ''app_card'', TotalFound ''frame'' 0, Scanning ''frame'',
          TotalFound ''text'' 0, Scanning ''text'',
          TotalFound ''sticky_note'' 0, Scanning ''sticky_note'',
          TotalFound ''shape'' 0, Scanning ''shape'',
          TotalFound ''document'' 0, Scanning ''document'',
          TotalFound ''image'' 2, Scanning ''image''],
       total_saved = 2, files_with_original_names = 0,
       files_with_generated_names = 2, item_count = 0, host = plain_host\<rparr>)"
  by (simp add: run_defs)

text \<open>
  On the host with code page 1252: the write for an item whose identifier
  holds a slash fails, the handler of line 225 reports it and nothing is
  counted; for an identifier of 300 characters \<^verbatim>\<open>dest.exists()\<close> raises at
  line 202, outside any handler.
\<close>

lemma item_id_with_slash:
  "fst (save_item (example_remote None) True (Some ''a/b'') ''https://r/x?format=original''
          (initial cp1252_host [])) = Finished
   \<and> files (snd (save_item (example_remote None) True (Some ''a/b'') ''https://r/x?format=original''
          (initial cp1252_host []))) = []
   \<and> total_saved (snd (save_item (example_remote None) True (Some ''a/b'')
          ''https://r/x?format=original'' (initial cp1252_host []))) = 0
   \<and> printed (snd (save_item (example_remote None) True (Some ''a/b'')
          ''https://r/x?format=original'' (initial cp1252_host [])))
       = [FailedToDownload ''https://r/x?format=original'']"
  by (simp add: run_defs)

lemma item_id_too_long:
  "save_item (example_remote None) True (Some (replicate 300 CHR ''a''))
      ''https://r/x?format=original'' (initial cp1252_host [])
     = (Raised OSError,
        (initial cp1252_host [])\<lparr>trace := [HEAD ''https://r/x?format=original'']\<rparr>)"
  by (simp add: run_defs)

section \<open>Facts about the enumerator and the loop over item types\<close>






lemma next_page_served:
  assumes "remote (GET url # trace st) = Reply r" "status_code r = 200" "body_json r = Some p"
  shows "next_page remote board_id url st =
           (Inr (page_data p,
                 if cursor_of p \<noteq> [] then Some (cursor_url board_id (cursor_of p)) else None),
            st\<lparr>trace := GET url # trace st\<rparr>)"
  using assms by (simp add: next_page_def send_def cursor_of_def split: option.splits)

lemma get_items_from_served:
  "chained pages \<Longrightarrow> serves remote (trace st) (url # follow_ups board_id pages) pages \<Longrightarrow>
   length pages \<le> fuel \<Longrightarrow>
   get_items_from fuel remote board_id url st =
     ((Finished, concat (map page_data pages)),
      st\<lparr>trace := rev (map GET (url # follow_ups board_id pages)) @ trace st\<rparr>)"
proof (induction pages arbitrary: url st fuel rule: chained.induct)
  case 1
  then show ?case by simp
next
  case (2 p)
  from "2.prems"(3) obtain n where n: "fuel = Suc n" by (cases fuel) auto
  from "2.prems"(2) obtain r where r: "remote (GET url # trace st) = Reply r"
    "status_code r = 200" "body_json r = Some p"
    by (auto simp: follow_ups_def split: reply.splits)
  show ?case
    using "2.prems"(1)
    by (simp add: n follow_ups_def
        next_page_served [where remote=remote and url=url and st=st, OF r])
next
  case (3 p q ps)
  from "3.prems"(3) obtain n where n: "fuel = Suc n" "length (q # ps) \<le> n" by (cases fuel) auto
  let ?u = "cursor_url board_id (cursor_of p)"
  have f: "follow_ups board_id (p # q # ps) = ?u # follow_ups board_id (q # ps)"
    by (simp add: follow_ups_def)
  from "3.prems"(2) obtain r where r: "remote (GET url # trace st) = Reply r"
    "status_code r = 200" "body_json r = Some p"
    and s: "serves remote (GET url # trace st) (?u # follow_ups board_id (q # ps)) (q # ps)"
    unfolding f by (auto split: reply.splits)
  let ?st1 = "st\<lparr>trace := GET url # trace st\<rparr>"
  have c: "cursor_of p \<noteq> []" "chained (q # ps)" using "3.prems"(1) by simp_all
  have s1: "serves remote (trace ?st1) (?u # follow_ups board_id (q # ps)) (q # ps)"
    using s by simp
  have ih: "get_items_from n remote board_id ?u ?st1 =
     ((Finished, concat (map page_data (q # ps))),
      ?st1\<lparr>trace := rev (map GET (?u # follow_ups board_id (q # ps))) @ trace ?st1\<rparr>)"
    using "3.IH" [OF c(2) s1 n(2)] .
  show ?case
    unfolding n(1) f using c(1)
    by (simp add: ih next_page_served [where remote=remote and url=url and st=st, OF r])
qed

lemma scan_from_include_docs:
  "scan_from fuel remote (a\<lparr>include_docs := d\<rparr>) item_type url st
     = scan_from fuel remote a item_type url st"
  by (induction fuel arbitrary: url st) (simp_all split: prod.splits sum.splits outcome.splits option.splits)

lemma scan_type_include_docs:
  "scan_type fuel remote (a\<lparr>include_docs := d\<rparr>) item_type st
     = scan_type fuel remote a item_type st"
  by (simp add: scan_type_def scan_from_include_docs cong: option.case_cong)

lemma scan_types_include_docs:
  "scan_types fuel remote (a\<lparr>include_docs := d\<rparr>) types st = scan_types fuel remote a types st"
  by (induction types arbitrary: st)
    (simp_all add: scan_type_include_docs split: prod.splits outcome.splits)

section \<open>Facts about the filename resolver\<close>

lemma startswith_appendD: "startswith s (p @ q) \<Longrightarrow> startswith s p"
  by (auto simp: startswith_iff)

lemma no_token_quoted: "\<not> contains ''filename='' v \<Longrightarrow> search_quoted v = None"
proof (induction v)
  case Nil
  then show ?case by simp
next
  case (Cons c cs)
  from Cons.prems have a: "\<not> startswith (c # cs) ''filename=''" and b: "\<not> contains ''filename='' cs"
    by simp_all
  from a have "\<not> startswith (c # cs) (''filename='' @ [CHR 0x22])"
    using startswith_appendD by blast
  then have "search_quoted (c # cs) = search_quoted cs"
    by (simp only: search_quoted.simps if_False)
  then show ?case using Cons.IH [OF b] by simp
qed

lemma no_token_unquoted: "\<not> contains ''filename='' v \<Longrightarrow> search_unquoted v = None"
proof (induction v)
  case Nil
  then show ?case by simp
next
  case (Cons c cs)
  from Cons.prems have a: "\<not> startswith (c # cs) ''filename=''" and b: "\<not> contains ''filename='' cs"
    by simp_all
  from a have "search_unquoted (c # cs) = search_unquoted cs"
    by (simp only: search_unquoted.simps if_False)
  then show ?case using Cons.IH [OF b] by simp
qed

lemma get_filename_state:
  "snd (get_filename_from_headers remote url st) = st\<lparr>trace := HEAD url # trace st\<rparr>"
  by (simp add: get_filename_from_headers_def send_def split: reply.splits)

lemma get_filename_none:
  assumes "head_gives_no_filename (remote (HEAD url # trace st))"
  shows "fst (get_filename_from_headers remote url st) = None"
proof (cases "remote (HEAD url # trace st)")
  case Failed
  then show ?thesis by (simp add: get_filename_from_headers_def send_def)
next
  case (Reply resp)
  show ?thesis
  proof (cases "status_code resp = 200")
    case False
    then show ?thesis using Reply by (simp add: get_filename_from_headers_def send_def)
  next
    case True
    show ?thesis
    proof (cases "content_disposition_header resp")
      case None
      then show ?thesis using Reply True by (simp add: get_filename_from_headers_def send_def)
    next
      case (Some v)
      with assms Reply True have "\<not> contains ''filename='' v"
        by (simp add: head_gives_no_filename_def)
      then show ?thesis
        using Reply True Some
        by (simp add: get_filename_from_headers_def send_def no_token_quoted no_token_unquoted)
    qed
  qed
qed

lemma resolve_conflict_unused:
  "stat_ok h filename \<Longrightarrow> \<not> has_file fs filename \<Longrightarrow>
     resolve_conflict h fs name_part filename counter = Some filename"
  by (subst resolve_conflict.simps) (simp add: dest_exists_def)

lemma resolve_conflict_stat_fails:
  "\<not> stat_ok h filename \<Longrightarrow> resolve_conflict h fs name_part filename counter = None"
  by (subst resolve_conflict.simps) (simp add: dest_exists_def)

lemma download_result:
  "download remote url dest st =
     (if download_returns (remote (GET url # trace st))
         \<and> write_ok (host st) (files st) dest (downloaded (remote (GET url # trace st)))
      then (True, st\<lparr>trace := GET url # trace st,
                      files := write_bytes dest (downloaded (remote (GET url # trace st))) (files st)\<rparr>)
      else (False, st\<lparr>trace := GET url # trace st\<rparr>))"
  by (cases "remote (GET url # trace st)")
    (auto simp: download_def send_def download_returns_def downloaded_def)

text \<open>
  What \<open>store\<close> does once the destination is found and the line about a
  conflict, if any, is printed: it ends normally; the file is written and
  counted exactly when the download returns and the write succeeds.
\<close>

lemma store_outcome:
  assumes r: "resolve_conflict (host st) (files st) name_part filename 1 = Some dest"
    and p: "q \<or> dest = filename \<or> console (host st) (ConflictResolved dest)"
  shows "\<exists>pr. store remote q src original filename name_part st =
           (Finished,
            if download_returns (remote (GET src # trace st))
               \<and> write_ok (host st) (files st) dest (downloaded (remote (GET src # trace st)))
            then (count_saved original st)
                   \<lparr>trace := GET src # trace st,
                    files := files st @ [(dest, downloaded (remote (GET src # trace st)))],
                    printed := pr\<rparr>
            else st\<lparr>trace := GET src # trace st, printed := pr\<rparr>)"
proof -
  let ?R = "remote (GET src # trace st)"
  let ?ok = "download_returns ?R \<and> write_ok (host st) (files st) dest (downloaded ?R)"
  let ?st1 = "if \<not> q \<and> dest \<noteq> filename then print_line (ConflictResolved dest) st else st"
  have s1: "(if \<not> q \<and> dest \<noteq> filename then try_print (ConflictResolved dest) st else Some st)
              = Some ?st1"
    using p by (auto simp: try_print_def)
  have e: "store remote q src original filename name_part st =
               (case download remote src dest ?st1 of
                  (True, st2) \<Rightarrow>
                    (case print_unless q (Saved dest) (count_saved original st2) of
                       None \<Rightarrow> (Finished, report_failure src (count_saved original st2))
                     | Some st3 \<Rightarrow> (Finished, st3))
                | (False, st2) \<Rightarrow> (Finished, report_failure src st2))"
    by (simp only: store_def r option.case s1)
  have f1: "trace ?st1 = trace st" "files ?st1 = files st" "host ?st1 = host st" by simp_all
  have free: "\<not> has_file (files st) dest" using r by (rule resolve_conflict_free)
  have w: "write_bytes dest c (files st) = files st @ [(dest, c)]" for c
    using free by (rule write_bytes_new)
  have fr: "framed st ?st1" by simp
  show ?thesis
  proof (cases ?ok)
    case False
    have d: "download remote src dest ?st1 = (False, ?st1\<lparr>trace := GET src # trace st\<rparr>)"
      using False by (simp only: download_result f1 if_False)
    define X where "X = report_failure src (?st1\<lparr>trace := GET src # trace st\<rparr>)"
    have A: "store remote q src original filename name_part st = (Finished, X)"
      unfolding e d X_def by simp
    have B: "X = st\<lparr>trace := GET src # trace st, printed := printed X\<rparr>"
      by (rule state_frame) (simp_all add: X_def report_failure_def framed_def)
    from B have "(Finished, X) = (Finished, st\<lparr>trace := GET src # trace st, printed := printed X\<rparr>)"
      by (rule arg_cong [where f = "Pair Finished"])
    with A have C: "store remote q src original filename name_part st =
        (Finished, st\<lparr>trace := GET src # trace st, printed := printed X\<rparr>)"
      by (rule trans)
    show ?thesis
    proof (rule exI [of _ "printed X"])
      show "store remote q src original filename name_part st =
           (Finished,
            if download_returns (remote (GET src # trace st))
               \<and> write_ok (host st) (files st) dest (downloaded (remote (GET src # trace st)))
            then (count_saved original st)
                   \<lparr>trace := GET src # trace st,
                    files := files st @ [(dest, downloaded (remote (GET src # trace st)))],
                    printed := printed X\<rparr>
            else st\<lparr>trace := GET src # trace st, printed := printed X\<rparr>)"
        using False by (simp only: C if_False simp_thms)
    qed
  next
    case True
    let ?st2 = "?st1\<lparr>trace := GET src # trace st,
                      files := files st @ [(dest, downloaded ?R)]\<rparr>"
    have d: "download remote src dest ?st1 = (True, ?st2)"
      using True by (simp only: download_result f1 if_True w simp_thms)
    let ?c = "count_saved original ?st2"
    let ?target = "(count_saved original st)
                   \<lparr>trace := GET src # trace st,
                    files := files st @ [(dest, downloaded ?R)]\<rparr>"
    have fin: "\<exists>st3. store remote q src original filename name_part st = (Finished, st3)
                 \<and> framed ?target st3 \<and> trace st3 = GET src # trace st"
    proof (cases "print_unless q (Saved dest) ?c")
      case None
      have "store remote q src original filename name_part st = (Finished, report_failure src ?c)"
        unfolding e d using None by simp
      moreover have "framed ?target (report_failure src ?c)"
        by (simp add: framed_def report_failure_def count_saved_def)
      moreover have "trace (report_failure src ?c) = GET src # trace st"
        by (simp add: report_failure_def count_saved_def)
      ultimately show ?thesis by blast
    next
      case (Some st3)
      have "store remote q src original filename name_part st = (Finished, st3)"
        unfolding e d using Some by simp
      moreover have "st3 = shown q (Saved dest) ?c" using Some by (rule print_unless_Some)
      then have "framed ?target st3 \<and> trace st3 = GET src # trace st"
        by (simp add: framed_def count_saved_def)
      ultimately show ?thesis by blast
    qed
    then obtain st3 where st3: "store remote q src original filename name_part st = (Finished, st3)"
      "framed ?target st3" "trace st3 = GET src # trace st" by blast
    have B: "st3 = ?target\<lparr>trace := GET src # trace st, printed := printed st3\<rparr>"
      using st3(2,3) by (rule state_frame)
    have T: "?target\<lparr>trace := GET src # trace st, printed := printed st3\<rparr>
             = (count_saved original st)
                   \<lparr>trace := GET src # trace st,
                    files := files st @ [(dest, downloaded ?R)],
                    printed := printed st3\<rparr>"
      by simp
    from B have B': "st3 = (count_saved original st)
                   \<lparr>trace := GET src # trace st,
                    files := files st @ [(dest, downloaded ?R)],
                    printed := printed st3\<rparr>"
      by (rule trans [OF _ T])
    from B' have "(Finished, st3) = (Finished, (count_saved original st)
                   \<lparr>trace := GET src # trace st,
                    files := files st @ [(dest, downloaded ?R)],
                    printed := printed st3\<rparr>)"
      by (rule arg_cong [where f = "Pair Finished"])
    with st3(1) have C: "store remote q src original filename name_part st =
        (Finished, (count_saved original st)
                   \<lparr>trace := GET src # trace st,
                    files := files st @ [(dest, downloaded ?R)],
                    printed := printed st3\<rparr>)"
      by (rule trans)
    show ?thesis
    proof (rule exI [of _ "printed st3"])
      show "store remote q src original filename name_part st =
           (Finished,
            if download_returns (remote (GET src # trace st))
               \<and> write_ok (host st) (files st) dest (downloaded (remote (GET src # trace st)))
            then (count_saved original st)
                   \<lparr>trace := GET src # trace st,
                    files := files st @ [(dest, downloaded (remote (GET src # trace st)))],
                    printed := printed st3\<rparr>
            else st\<lparr>trace := GET src # trace st, printed := printed st3\<rparr>)"
        using True by (simp only: C if_True simp_thms)
    qed
  qed
qed

lemma store_refused:
  "resolve_conflict (host st) (files st) name_part filename 1 = None \<Longrightarrow>
     store remote q src original filename name_part st = (Raised OSError, st)"
  "resolve_conflict (host st) (files st) name_part filename 1 = Some dest \<Longrightarrow>
   \<not> (q \<or> dest = filename \<or> console (host st) (ConflictResolved dest)) \<Longrightarrow>
     store remote q src original filename name_part st = (Raised PrintFailed, st)"
  by (simp_all add: store_def try_print_def)

text \<open>
  A save never replaces a file: the directory is as before, or one file is
  added under the name the loop of lines 202 to 209 found.
\<close>

lemma store_never_overwrites:
  "files (snd (store remote q src original filename name_part st)) = files st
   \<or> (\<exists>dest. resolve_conflict (host st) (files st) name_part filename 1 = Some dest
          \<and> \<not> has_file (files st) dest
          \<and> files (snd (store remote q src original filename name_part st))
               = files st @ [(dest, downloaded (remote (GET src # trace st)))])"
proof (cases "resolve_conflict (host st) (files st) name_part filename 1")
  case None
  then show ?thesis by (simp add: store_refused)
next
  case (Some dest)
  show ?thesis
  proof (cases "q \<or> dest = filename \<or> console (host st) (ConflictResolved dest)")
    case False
    then show ?thesis
      using store_refused(2) [where st=st and name_part=name_part and filename=filename
          and dest=dest and q=q and remote=remote and src=src and original=original] Some
      by simp
  next
    case True
    from store_outcome [OF Some True, of remote src original]
    obtain pr where "store remote q src original filename name_part st =
           (Finished,
            if download_returns (remote (GET src # trace st))
               \<and> write_ok (host st) (files st) dest (downloaded (remote (GET src # trace st)))
            then (count_saved original st)
                   \<lparr>trace := GET src # trace st,
                    files := files st @ [(dest, downloaded (remote (GET src # trace st)))],
                    printed := pr\<rparr>
            else st\<lparr>trace := GET src # trace st, printed := pr\<rparr>)"
      by blast
    then show ?thesis using Some resolve_conflict_free [OF Some] by (simp add: count_saved_def)
  qed
qed

lemma rfind_suffix: "rfind ''.svg'' (n @ ''.svg'') = Some (length n)"
  by (induction n) simp_all

lemma rsplit_head_svg: "rsplit_head ''.svg'' (n @ ''.svg'') = n"
  by (simp add: rsplit_head_def rfind_suffix)

lemma store_generated:
  "files_with_original_names (snd (store remote q src False filename name_part st))
     = files_with_original_names st
   \<and> (files (snd (store remote q src False filename name_part st)) = files st
        \<and> files_with_generated_names (snd (store remote q src False filename name_part st))
            = files_with_generated_names st
        \<and> total_saved (snd (store remote q src False filename name_part st)) = total_saved st
      \<or> fst (store remote q src False filename name_part st) = Finished
        \<and> (\<exists>dest. resolve_conflict (host st) (files st) name_part filename 1 = Some dest
              \<and> files (snd (store remote q src False filename name_part st))
                  = files st @ [(dest, downloaded (remote (GET src # trace st)))])
        \<and> files_with_generated_names (snd (store remote q src False filename name_part st))
            = files_with_generated_names st + 1
        \<and> total_saved (snd (store remote q src False filename name_part st)) = total_saved st + 1)
   \<and> (resolve_conflict (host st) (files st) name_part filename 1 = Some dest
        \<and> (q \<or> dest = filename \<or> console (host st) (ConflictResolved dest))
        \<and> download_returns (remote (GET src # trace st))
        \<and> write_ok (host st) (files st) dest (downloaded (remote (GET src # trace st))) \<longrightarrow>
      fst (store remote q src False filename name_part st) = Finished
      \<and> files (snd (store remote q src False filename name_part st))
          = files st @ [(dest, downloaded (remote (GET src # trace st)))]
      \<and> files_with_generated_names (snd (store remote q src False filename name_part st))
          = files_with_generated_names st + 1
      \<and> total_saved (snd (store remote q src False filename name_part st)) = total_saved st + 1)"
proof (cases "resolve_conflict (host st) (files st) name_part filename 1")
  case None
  then show ?thesis by (simp add: store_refused)
next
  case (Some d)
  show ?thesis
  proof (cases "q \<or> d = filename \<or> console (host st) (ConflictResolved d)")
    case False
    have "store remote q src False filename name_part st = (Raised PrintFailed, st)"
      using Some False by (rule store_refused(2))
    then show ?thesis using Some False by auto
  next
    case True
    from store_outcome [OF Some True, of remote src False]
    obtain pr where s: "store remote q src False filename name_part st =
           (Finished,
            if download_returns (remote (GET src # trace st))
               \<and> write_ok (host st) (files st) d (downloaded (remote (GET src # trace st)))
            then (count_saved False st)
                   \<lparr>trace := GET src # trace st,
                    files := files st @ [(d, downloaded (remote (GET src # trace st)))],
                    printed := pr\<rparr>
            else st\<lparr>trace := GET src # trace st, printed := pr\<rparr>)"
      by blast
    show ?thesis
    proof (cases "download_returns (remote (GET src # trace st))
               \<and> write_ok (host st) (files st) d (downloaded (remote (GET src # trace st)))")
      case ok: True
      have "store remote q src False filename name_part st =
           (Finished, (count_saved False st)
                   \<lparr>trace := GET src # trace st,
                    files := files st @ [(d, downloaded (remote (GET src # trace st)))],
                    printed := pr\<rparr>)"
        using ok by (simp only: s if_True simp_thms)
      then show ?thesis using Some by (simp add: count_saved_def)
    next
      case bad: False
      have "store remote q src False filename name_part st =
           (Finished, st\<lparr>trace := GET src # trace st, printed := pr\<rparr>)"
        using bad by (simp only: s if_False simp_thms)
      then show ?thesis using Some bad by auto
    qed
  qed
qed

lemma save_item_fallback:
  assumes "fst (get_filename_from_headers remote src st) = None
           \<or> fst (get_filename_from_headers remote src st) = Some []"
  shows "save_item remote q (Some i) src st =
           (case print_unless q UsingItemId (st\<lparr>trace := HEAD src # trace st\<rparr>) of
              None \<Rightarrow> (Raised PrintFailed, st\<lparr>trace := HEAD src # trace st\<rparr>)
            | Some st2 \<Rightarrow> store remote q src False (i @ ''.svg'') i st2)"
proof -
  obtain name st' where g: "get_filename_from_headers remote src st = (name, st')"
    by (cases "get_filename_from_headers remote src st")
  have st': "st' = st\<lparr>trace := HEAD src # trace st\<rparr>"
    using get_filename_state [of remote src st] g by simp
  from assms g have "name = None \<or> name = Some []" by simp
  then show ?thesis
    using g st' by (auto simp: save_item_def use_item_id_def)
qed

lemma save_item_no_identifier:
  assumes "fst (get_filename_from_headers remote src st) = None
           \<or> fst (get_filename_from_headers remote src st) = Some []"
  shows "save_item remote q None src st = (Raised KeyError, st\<lparr>trace := HEAD src # trace st\<rparr>)"
proof -
  obtain name st' where g: "get_filename_from_headers remote src st = (name, st')"
    by (cases "get_filename_from_headers remote src st")
  have st': "st' = st\<lparr>trace := HEAD src # trace st\<rparr>"
    using get_filename_state [of remote src st] g by simp
  from assms g have "name = None \<or> name = Some []" by simp
  then show ?thesis
    using g st' by (auto simp: save_item_def use_item_id_def)
qed

section \<open>Properties of the run\<close>




text \<open>
  C2, evaluated on the code. The flag \<^verbatim>\<open>--include-docs\<close> is parsed and never
  read: a run does the same whatever its value, and a run without the flag
  requests the listing of document items.
\<close>

theorem include_docs_is_ignored:
  "main fuel remote (a\<lparr>include_docs := d\<rparr>) h fs = main fuel remote a h fs
   \<and> include_docs example_args = False
   \<and> GET ''https://api.miro.com/v2/boards/b/items?type=document&limit=50''
       \<in> set (trace (snd (main 3 (example_remote None) example_args plain_host [])))"
proof -
  have "main fuel remote (a\<lparr>include_docs := d\<rparr>) h fs = main fuel remote a h fs"
    by (simp add: main_def scan_types_include_docs)
  moreover have "include_docs example_args = False" by (simp add: example_args_def)
  moreover have "GET ''https://api.miro.com/v2/boards/b/items?type=document&limit=50''
       \<in> set (trace (snd (main 3 (example_remote None) example_args plain_host [])))"
    by (simp add: example_run)
  ultimately show ?thesis by blast
qed

text \<open>
  C3, as the code has it. When the remote side serves a run of pages, the
  enumerator ends normally (given a bound of at least their number), yields
  the items of the pages in order, and issues these requests, oldest first:
  the first URL with the type filter and \<open>limit=50\<close>, then for each page but
  the last a URL that carries only the cursor of that page.
\<close>

theorem get_items_pages:
  assumes "chained pages"
    and "serves remote (trace st) (page_urls board_id item_type pages) pages"
    and "length pages \<le> fuel"
  shows "get_items fuel remote board_id item_type st =
           ((Finished, concat (map page_data pages)),
            st\<lparr>trace := rev (map GET (page_urls board_id item_type pages)) @ trace st\<rparr>)
         \<and> page_urls board_id item_type pages =
             (API_ROOT @ ''/boards/'' @ board_id @ ''/items?type='' @ item_type @ ''&limit=50'')
             # map (\<lambda>p. API_ROOT @ ''/boards/'' @ board_id @ ''/items?cursor='' @ cursor_of p)
                 (butlast pages)"
  using get_items_from_served [of pages remote st "first_url board_id item_type" board_id fuel] assms
  by (simp add: get_items_def page_urls_def follow_ups_def first_url_def cursor_url_def)

theorem get_items_pages_witness:
  "get_items 3 (example_remote None) ''b'' ''image'' (initial plain_host []) =
     ((Finished, page_data two_items),
      (initial plain_host [])\<lparr>trace :=
         [GET ''https://api.miro.com/v2/boards/b/items?cursor=c1'',
          GET ''https://api.miro.com/v2/boards/b/items?type=image&limit=50'']\<rparr>)"
  using get_items_pages [of "[two_items, \<lparr>page_data = [], page_cursor = None\<rparr>]"
      "example_remote None" "initial plain_host []" "''b''" "''image''" 3]
  by (simp add: page_urls_def follow_ups_def cursor_of_def eval_defs)

text \<open>
  C3 as the specification states it fails: the follow-up request for the
  second page of images carries neither the type filter nor the page size.
\<close>

theorem follow_up_drops_type_filter:
  "trace (snd (get_items 3 (example_remote None) ''b'' ''image'' (initial plain_host []))) =
     [GET ''https://api.miro.com/v2/boards/b/items?cursor=c1'',
      GET ''https://api.miro.com/v2/boards/b/items?type=image&limit=50'']
   \<and> \<not> contains ''type='' ''https://api.miro.com/v2/boards/b/items?cursor=c1''
   \<and> \<not> contains ''limit='' ''https://api.miro.com/v2/boards/b/items?cursor=c1''"
  by (simp add: get_items_def next_page_def numeral_3_eq_3 eval_defs)

text \<open>
  C4. A probed response is matched exactly when its status is 200 and one of
  these holds: the content type contains \<open>svg\<close>; the content type contains
  \<open>image/svg\<close>; the body with leading white space removed starts with
  \<open><?xml\<close> and \<open>svg\<close> occurs in the first 200 characters of the body; the
  body with leading white space removed starts with \<open><svg\<close>. So a body
  that starts with \<open><svg\<close> after trimming is matched whatever the content
  type, and a content type containing \<open>svg\<close> is matched whatever the body.
  The content type is the value of line 140: the header in lower case, empty
  when absent. The 200 characters are those of the body as received, as line
  148 takes them.
\<close>

theorem matched_iff:
  "(matched resp \<longleftrightarrow>
      status_code resp = 200 \<and>
      (contains ''svg'' (content_type resp)
       \<or> contains ''image/svg'' (content_type resp)
       \<or> (startswith (lstrip_by py_isspace (body_text resp)) (ustr ''<?xml'')
           \<and> contains (ustr ''svg'') (take 200 (body_text resp)))
       \<or> startswith (lstrip_by py_isspace (body_text resp)) (ustr ''<svg'')))
   \<and> (status_code resp = 200
        \<and> startswith (lstrip_by py_isspace (body_text resp)) (ustr ''<svg'')
        \<longrightarrow> (\<forall>h. matched (resp\<lparr>content_type_header := h\<rparr>)))
   \<and> (status_code resp = 200 \<and> contains ''svg'' (content_type resp)
        \<longrightarrow> (\<forall>b. matched (resp\<lparr>body_text := b\<rparr>)))"
proof -
  have x: "startswith (strip_by py_isspace t) (ustr ''<?xml'')
             = startswith (lstrip_by py_isspace t) (ustr ''<?xml'')" for t
    using xml_not_space by (simp add: startswith_strip)
  have s: "startswith (strip_by py_isspace t) (ustr ''<svg'')
             = startswith (lstrip_by py_isspace t) (ustr ''<svg'')" for t
    using svg_not_space by (simp add: startswith_strip)
  show ?thesis
    unfolding matched_def is_svg_content_def x s by (auto simp: content_type_def)
qed

theorem matched_iff_witness:
  "matched \<lparr>status_code = 200, content_type_header = Some ''text/plain'',
            content_disposition_header = None, body_text = ustr ''  <svg/> '',
            body_content = [], body_json = None\<rparr>
   \<and> matched \<lparr>status_code = 200, content_type_header = Some ''Image/SVG+xml'',
            content_disposition_header = None, body_text = ustr ''hello'',
            body_content = [], body_json = None\<rparr>
   \<and> \<not> matched \<lparr>status_code = 404, content_type_header = Some ''image/svg+xml'',
            content_disposition_header = None, body_text = ustr ''<svg/>'',
            body_content = [], body_json = None\<rparr>"
  using matched_iff [of "\<lparr>status_code = 200, content_type_header = Some ''text/plain'',
            content_disposition_header = None, body_text = ustr ''  <svg/> '',
            body_content = [], body_json = None\<rparr>"]
    matched_iff [of "\<lparr>status_code = 200, content_type_header = Some ''Image/SVG+xml'',
            content_disposition_header = None, body_text = ustr ''hello'',
            body_content = [], body_json = None\<rparr>"]
    matched_iff [of "\<lparr>status_code = 404, content_type_header = Some ''image/svg+xml'',
            content_disposition_header = None, body_text = ustr ''<svg/>'',
            body_content = [], body_json = None\<rparr>"]
  by (simp add: content_type_def lower_def lower_char_def char_of_eq_iff lstrip_by_def
      ustr_def py_isspace_def)

text \<open>
  C5. For an item with a non-empty resource URL the candidates are, in this
  order: the URL up to its first question mark followed by
  \<open>?format=original&redirect=true\<close>, by \<open>?redirect=true\<close>, by
  \<open>?format=original\<close> and by nothing, and last the URL unchanged. The
  first holds both parameters and the last is the URL as given.
  Probing them when no \<^verbatim>\<open>print\<close> fails (the run is quiet, or the host takes
  every line) always runs to its end: when a reply is a match and no earlier
  one is, the result is that candidate and the requests issued are the
  candidates up to and including it, in order; when none of the five replies
  is a match, there is no result and the five candidates were requested in
  order. On a steady host, whichever \<^verbatim>\<open>print\<close> fails, the requests issued are
  the first \<open>m\<close> candidates in order and no reply but the last is a
  match, so no request follows a match; the loop runs to its end or the
  \<^verbatim>\<open>print\<close> of the handler raises.
\<close>

theorem candidates_and_first_match:
  assumes "src \<noteq> []"
  shows "download_urls_to_try src =
           [takeWhile (\<lambda>c. c \<noteq> CHR ''?'') src @ ''?format=original&redirect=true'',
            takeWhile (\<lambda>c. c \<noteq> CHR ''?'') src @ ''?redirect=true'',
            takeWhile (\<lambda>c. c \<noteq> CHR ''?'') src @ ''?format=original'',
            takeWhile (\<lambda>c. c \<noteq> CHR ''?'') src,
            src]
         \<and> contains ''format=original'' (hd (download_urls_to_try src))
         \<and> contains ''redirect=true'' (hd (download_urls_to_try src))
         \<and> last (download_urls_to_try src) = src
         \<and> (q \<or> accepting (host st) \<longrightarrow>
              (\<forall>k<5. reply_matched (probe_reply remote (trace st) (download_urls_to_try src) k)
                     \<and> (\<forall>j<k. \<not> reply_matched
                            (probe_reply remote (trace st) (download_urls_to_try src) j)) \<longrightarrow>
                  fst (probe remote q (download_urls_to_try src) None st)
                    = (Finished, Some (download_urls_to_try src ! k))
                  \<and> trace (snd (probe remote q (download_urls_to_try src) None st))
                      = rev (map GET (take (Suc k) (download_urls_to_try src))) @ trace st)
              \<and> ((\<forall>j<5. \<not> reply_matched
                      (probe_reply remote (trace st) (download_urls_to_try src) j)) \<longrightarrow>
                  fst (probe remote q (download_urls_to_try src) None st) = (Finished, None)
                  \<and> trace (snd (probe remote q (download_urls_to_try src) None st))
                      = rev (map GET (download_urls_to_try src)) @ trace st))
         \<and> (steady q (host st) \<longrightarrow>
              (\<exists>m\<le>5. trace (snd (probe remote q (download_urls_to_try src) None st))
                         = rev (map GET (take m (download_urls_to_try src))) @ trace st
                     \<and> (\<forall>j. Suc j < m \<longrightarrow> \<not> reply_matched
                            (probe_reply remote (trace st) (download_urls_to_try src) j))
                     \<and> (fst (fst (probe remote q (download_urls_to_try src) None st)) = Finished
                        \<or> fst (fst (probe remote q (download_urls_to_try src) None st))
                            = Raised PrintFailed)))"
proof -
  let ?b = "takeWhile (\<lambda>c. c \<noteq> CHR ''?'') src"
  let ?U = "download_urls_to_try src"
  have l: "?U = [?b @ ''?format=original&redirect=true'', ?b @ ''?redirect=true'',
            ?b @ ''?format=original'', ?b, src]"
    using assms by (simp add: download_urls_to_try_def Let_def)
  have f: "contains ''format=original'' (hd ?U)"
    using contains_append [of "''format=original''" "?b @ ''?''" "''&redirect=true''"]
    by (simp add: l)
  have r: "contains ''redirect=true'' (hd ?U)"
    using contains_append [of "''redirect=true''" "?b @ ''?format=original&''" "[]"]
    by (simp add: l)
  have la: "last ?U = src" by (simp add: l)
  have n: "length ?U = 5" by (simp add: l)
  have calm1: "fst (probe remote q ?U None st) = (Finished, Some (?U ! k))
               \<and> trace (snd (probe remote q ?U None st)) = rev (map GET (take (Suc k) ?U)) @ trace st"
    if "q \<or> accepting (host st)" "k < 5"
      "reply_matched (probe_reply remote (trace st) ?U k)
       \<and> (\<forall>j<k. \<not> reply_matched (probe_reply remote (trace st) ?U j))" for k
    using probe_first_match [of q st k ?U remote None] that n by simp
  have calm2: "fst (probe remote q ?U None st) = (Finished, None)
               \<and> trace (snd (probe remote q ?U None st)) = rev (map GET ?U) @ trace st"
    if "q \<or> accepting (host st)" "\<forall>j<5. \<not> reply_matched (probe_reply remote (trace st) ?U j)"
    using probe_no_match [of q st ?U remote None] that n by simp
  have st: "\<exists>m\<le>5. trace (snd (probe remote q ?U None st)) = rev (map GET (take m ?U)) @ trace st
               \<and> (\<forall>j. Suc j < m \<longrightarrow> \<not> reply_matched (probe_reply remote (trace st) ?U j))
               \<and> (fst (fst (probe remote q ?U None st)) = Finished
                  \<or> fst (fst (probe remote q ?U None st)) = Raised PrintFailed)"
    if "steady q (host st)"
    using probe_prefix [OF that, of ?U remote None] n by simp
  show ?thesis
    using l f r la calm1 calm2 st by blast
qed

theorem candidates_and_first_match_witness:
  "download_urls_to_try ''https://r/x?sig=1'' =
     [''https://r/x?format=original&redirect=true'', ''https://r/x?redirect=true'',
      ''https://r/x?format=original'', ''https://r/x'', ''https://r/x?sig=1'']
   \<and> fst (probe (example_remote None) True (download_urls_to_try ''https://r/x?sig=1'') None
            (initial plain_host []))
       = (Finished, Some ''https://r/x?format=original'')
   \<and> trace (snd (probe (example_remote None) True (download_urls_to_try ''https://r/x?sig=1'') None
         (initial plain_host [])))
       = [GET ''https://r/x?format=original'', GET ''https://r/x?redirect=true'',
          GET ''https://r/x?format=original&redirect=true'']"
proof -
  let ?src = "''https://r/x?sig=1''"
  let ?st = "initial plain_host []"
  let ?U = "download_urls_to_try ?src"
  have ne: "?src \<noteq> []" by simp
  note t = candidates_and_first_match [OF ne, where q=True and st="?st"
      and remote="example_remote None"]
  have u: "?U = [''https://r/x?format=original&redirect=true'', ''https://r/x?redirect=true'',
      ''https://r/x?format=original'', ''https://r/x'', ''https://r/x?sig=1'']"
    using t by simp
  have m: "reply_matched (probe_reply (example_remote None) (trace ?st) ?U 2)"
    "\<forall>j<2. \<not> reply_matched (probe_reply (example_remote None) (trace ?st) ?U j)"
    by (simp_all add: eval_defs numeral_2_eq_2 less_Suc_eq)
  from t have every: "\<forall>k<5. reply_matched (probe_reply (example_remote None) (trace ?st) ?U k)
                     \<and> (\<forall>j<k. \<not> reply_matched (probe_reply (example_remote None) (trace ?st) ?U j)) \<longrightarrow>
                  fst (probe (example_remote None) True ?U None ?st) = (Finished, Some (?U ! k))
                  \<and> trace (snd (probe (example_remote None) True ?U None ?st))
                      = rev (map GET (take (Suc k) ?U)) @ trace ?st"
    by blast
  have "fst (probe (example_remote None) True ?U None ?st) = (Finished, Some (?U ! 2))
                  \<and> trace (snd (probe (example_remote None) True ?U None ?st))
                      = rev (map GET (take (Suc 2) ?U)) @ trace ?st"
    using every [rule_format, of 2] m by simp
  then show ?thesis unfolding u by (simp add: initial_def numeral_2_eq_2)
qed

text \<open>
  C6, evaluated on the code. Two items whose header filename is \<open>A.SVG\<close>:
  line 187 takes the name as ending in the extension, line 204 splits at the
  lower-case \<open>.svg\<close> only and finds none, so the second file is named
  \<open>A.SVG_1.svg\<close>, the counter after the whole name.
\<close>

theorem uppercase_extension_conflict:
  "sanitize ''A.SVG'' = ''A.SVG''
   \<and> rsplit_head ''.svg'' ''A.SVG'' = ''A.SVG''
   \<and> files (snd (process_items
        (example_remote (Some (''attachment; filename='' @ [CHR 0x22] @ ''A.SVG'' @ [CHR 0x22])))
        True ''image'' (page_data two_items) (initial plain_host [])))
       = [(''A.SVG'', ''<svg/>''), (''A.SVG_1.svg'', ''<svg/>'')]"
  by (simp add: run_defs)

text \<open>
  C7, as the code has it. Sanitizing a sanitized name gives the same name
  for every input that holds a character other than a dot and a space. For
  an input made of dots and spaces only, the first pass gives the bare
  extension \<open>.svg\<close> and the second pass gives \<open>svg.svg\<close>.
\<close>

theorem sanitize_twice:
  "sanitize (sanitize x) = (if list_all dot_or_space x then ''svg.svg'' else sanitize x)
   \<and> (list_all dot_or_space x \<longrightarrow> sanitize x = ''.svg'')"
proof (cases "list_all dot_or_space x")
  case True
  then show ?thesis by (simp add: sanitize_dots sanitize_bare_extension)
next
  case False
  then have "strip_by dot_or_space (replace_illegal x) \<noteq> []"
    by (simp add: strip_by_Nil_iff dot_or_space_replace_illegal)
  then show ?thesis using False by (simp add: sanitize_nonempty_idem)
qed

theorem sanitize_twice_witness:
  "sanitize (sanitize ''a:b.SVG '') = ''a_b.SVG'' \<and> sanitize (sanitize '' . '') = ''svg.svg''"
  using sanitize_twice [of "''a:b.SVG ''"] sanitize_twice [of "'' . ''"]
  by (simp add: sanitize_def replace_illegal_def strip_by_def dot_or_space_def endswith_def
      lower_def lower_char_def illegal_char_def char_of_eq_iff)

text \<open>
  C7 as the specification states it fails: the name \<open>...\<close> is sanitized to
  \<open>.svg\<close>, and sanitizing that gives \<open>svg.svg\<close>.
\<close>

theorem sanitize_not_idempotent:
  "sanitize ''...'' = ''.svg'' \<and> sanitize (sanitize ''...'') = ''svg.svg''
   \<and> sanitize (sanitize ''...'') \<noteq> sanitize ''...''"
  by (simp add: sanitize_def replace_illegal_def strip_by_def dot_or_space_def endswith_def
      lower_def lower_char_def illegal_char_def)

text \<open>
  C8. When the \<^verbatim>\<open>HEAD\<close> request fails, returns another status than 200,
  carries no Content-Disposition header or one without a \<open>filename=\<close> token,
  no filename is recovered. When none is recovered (or an empty one) for an
  item with the identifier \<open>i\<close>:
  \<^item> the item is never counted as an original name;
  \<^item> either the output directory and the counters are as before, or the run
    of the item ended normally and one file was added, under the name the
    loop of lines 202 to 209 found from \<open>i\<close> followed by \<open>.svg\<close>,
    holding the reply to the download, and counted as a generated name and in
    the total;
  \<^item> that name is \<open>i\<close> followed by \<open>.svg\<close> when \<^verbatim>\<open>exists()\<close> returns
    for it and the output directory has no such file;
  \<^item> the file is added and counted when the line of 195 is printed (or the
    run is quiet), the loop of lines 202 to 209 found the name \<open>dest\<close>,
    the line of 212 is printed if it is due, the reply to the download is no
    error status and the write succeeds.
\<close>

theorem falls_back_to_item_id:
  "(head_gives_no_filename (remote (HEAD src # trace st)) \<longrightarrow>
      fst (get_filename_from_headers remote src st) = None)
   \<and> ((fst (get_filename_from_headers remote src st) = None
        \<or> fst (get_filename_from_headers remote src st) = Some [])
       \<and> ident = Some i \<longrightarrow>
         files_with_original_names (snd (save_item remote q ident src st))
           = files_with_original_names st
         \<and> (files (snd (save_item remote q ident src st)) = files st
              \<and> files_with_generated_names (snd (save_item remote q ident src st))
                  = files_with_generated_names st
              \<and> total_saved (snd (save_item remote q ident src st)) = total_saved st
            \<or> fst (save_item remote q ident src st) = Finished
              \<and> (\<exists>d. resolve_conflict (host st) (files st) i (i @ ''.svg'') 1 = Some d
                    \<and> files (snd (save_item remote q ident src st))
                        = files st @ [(d, downloaded (remote (GET src # HEAD src # trace st)))])
              \<and> files_with_generated_names (snd (save_item remote q ident src st))
                  = files_with_generated_names st + 1
              \<and> total_saved (snd (save_item remote q ident src st)) = total_saved st + 1)
         \<and> (stat_ok (host st) (i @ ''.svg'') \<and> \<not> has_file (files st) (i @ ''.svg'') \<longrightarrow>
              resolve_conflict (host st) (files st) i (i @ ''.svg'') 1 = Some (i @ ''.svg''))
         \<and> ((q \<or> console (host st) UsingItemId)
             \<and> resolve_conflict (host st) (files st) i (i @ ''.svg'') 1 = Some dest
             \<and> (q \<or> dest = i @ ''.svg'' \<or> console (host st) (ConflictResolved dest))
             \<and> download_returns (remote (GET src # HEAD src # trace st))
             \<and> write_ok (host st) (files st) dest
                  (downloaded (remote (GET src # HEAD src # trace st))) \<longrightarrow>
              fst (save_item remote q ident src st) = Finished
              \<and> files (snd (save_item remote q ident src st))
                  = files st @ [(dest, downloaded (remote (GET src # HEAD src # trace st)))]
              \<and> files_with_generated_names (snd (save_item remote q ident src st))
                  = files_with_generated_names st + 1
              \<and> total_saved (snd (save_item remote q ident src st)) = total_saved st + 1))"
proof (intro conjI impI)
  assume "head_gives_no_filename (remote (HEAD src # trace st))"
  then show "fst (get_filename_from_headers remote src st) = None" by (rule get_filename_none)
next
  assume a: "(fst (get_filename_from_headers remote src st) = None
        \<or> fst (get_filename_from_headers remote src st) = Some [])
       \<and> ident = Some i"
  let ?st1 = "st\<lparr>trace := HEAD src # trace st\<rparr>"
  let ?st2 = "shown q UsingItemId ?st1"
  let ?S = "save_item remote q ident src st"
  have i: "ident = Some i" using a by simp
  have fb: "?S = (case print_unless q UsingItemId ?st1 of
              None \<Rightarrow> (Raised PrintFailed, ?st1)
            | Some st2 \<Rightarrow> store remote q src False (i @ ''.svg'') i st2)"
    unfolding i using a by (intro save_item_fallback) simp
  have t2: "trace ?st2 = HEAD src # trace st" "files ?st2 = files st" "host ?st2 = host st"
    "files_with_original_names ?st2 = files_with_original_names st"
    "files_with_generated_names ?st2 = files_with_generated_names st"
    "total_saved ?st2 = total_saved st"
    by simp_all
  note g = store_generated [where remote=remote and q=q and src=src and filename="i @ ''.svg''"
      and name_part=i and st="?st2" and dest=dest, unfolded t2]
  have main: "files_with_original_names (snd ?S) = files_with_original_names st
     \<and> (files (snd ?S) = files st
          \<and> files_with_generated_names (snd ?S) = files_with_generated_names st
          \<and> total_saved (snd ?S) = total_saved st
        \<or> fst ?S = Finished
          \<and> (\<exists>d. resolve_conflict (host st) (files st) i (i @ ''.svg'') 1 = Some d
                \<and> files (snd ?S)
                    = files st @ [(d, downloaded (remote (GET src # HEAD src # trace st)))])
          \<and> files_with_generated_names (snd ?S) = files_with_generated_names st + 1
          \<and> total_saved (snd ?S) = total_saved st + 1)
     \<and> ((q \<or> console (host st) UsingItemId)
         \<and> resolve_conflict (host st) (files st) i (i @ ''.svg'') 1 = Some dest
         \<and> (q \<or> dest = i @ ''.svg'' \<or> console (host st) (ConflictResolved dest))
         \<and> download_returns (remote (GET src # HEAD src # trace st))
         \<and> write_ok (host st) (files st) dest
              (downloaded (remote (GET src # HEAD src # trace st))) \<longrightarrow>
          fst ?S = Finished
          \<and> files (snd ?S)
              = files st @ [(dest, downloaded (remote (GET src # HEAD src # trace st)))]
          \<and> files_with_generated_names (snd ?S) = files_with_generated_names st + 1
          \<and> total_saved (snd ?S) = total_saved st + 1)"
  proof (cases "q \<or> console (host st) UsingItemId")
    case False
    then have "print_unless q UsingItemId ?st1 = None"
      by (simp add: print_unless_def try_print_def)
    then have "?S = (Raised PrintFailed, ?st1)" using fb by simp
    then show ?thesis using False by simp
  next
    case True
    then have "print_unless q UsingItemId ?st1 = Some ?st2"
      by (auto simp: print_unless_def try_print_def shown_def)
    then have "?S = store remote q src False (i @ ''.svg'') i ?st2" using fb by simp
    then show ?thesis using g True by simp
  qed
  show "files_with_original_names (snd ?S) = files_with_original_names st"
    using main by blast
  show "files (snd ?S) = files st
          \<and> files_with_generated_names (snd ?S) = files_with_generated_names st
          \<and> total_saved (snd ?S) = total_saved st
        \<or> fst ?S = Finished
          \<and> (\<exists>d. resolve_conflict (host st) (files st) i (i @ ''.svg'') 1 = Some d
                \<and> files (snd ?S)
                    = files st @ [(d, downloaded (remote (GET src # HEAD src # trace st)))])
          \<and> files_with_generated_names (snd ?S) = files_with_generated_names st + 1
          \<and> total_saved (snd ?S) = total_saved st + 1"
    using main by blast
  {
    assume "stat_ok (host st) (i @ ''.svg'') \<and> \<not> has_file (files st) (i @ ''.svg'')"
    then show "resolve_conflict (host st) (files st) i (i @ ''.svg'') 1 = Some (i @ ''.svg'')"
      by (simp add: resolve_conflict_unused)
  }
  {
    assume h: "(q \<or> console (host st) UsingItemId)
         \<and> resolve_conflict (host st) (files st) i (i @ ''.svg'') 1 = Some dest
         \<and> (q \<or> dest = i @ ''.svg'' \<or> console (host st) (ConflictResolved dest))
         \<and> download_returns (remote (GET src # HEAD src # trace st))
         \<and> write_ok (host st) (files st) dest
              (downloaded (remote (GET src # HEAD src # trace st)))"
    from main h show "fst ?S = Finished" by blast
    from main h show "files (snd ?S)
              = files st @ [(dest, downloaded (remote (GET src # HEAD src # trace st)))]" by blast
    from main h show "files_with_generated_names (snd ?S) = files_with_generated_names st + 1"
      by blast
    from main h show "total_saved (snd ?S) = total_saved st + 1" by blast
  }
qed

theorem falls_back_to_item_id_witness:
  "fst (get_filename_from_headers (example_remote None) ''https://r/x?format=original''
          (initial plain_host [])) = None
   \<and> fst (save_item (example_remote None) True (Some ''42'')
            ''https://r/x?format=original'' (initial plain_host [])) = Finished
   \<and> files (snd (save_item (example_remote None) True (Some ''42'')
            ''https://r/x?format=original'' (initial plain_host []))) = [(''42.svg'', ''<svg/>'')]
   \<and> files_with_generated_names
        (snd (save_item (example_remote None) True (Some ''42'')
            ''https://r/x?format=original'' (initial plain_host []))) = 1
   \<and> files_with_original_names
        (snd (save_item (example_remote None) True (Some ''42'')
            ''https://r/x?format=original'' (initial plain_host []))) = 0
   \<and> total_saved
        (snd (save_item (example_remote None) True (Some ''42'')
            ''https://r/x?format=original'' (initial plain_host []))) = 1"
proof -
  let ?src = "''https://r/x?format=original''"
  let ?st = "initial plain_host []"
  have h: "head_gives_no_filename (example_remote None (HEAD ?src # trace ?st))"
    by (simp add: head_gives_no_filename_def eval_defs)
  have d: "download_returns (example_remote None (GET ?src # HEAD ?src # trace ?st))"
    "downloaded (example_remote None (GET ?src # HEAD ?src # trace ?st)) = ''<svg/>''"
    by (simp_all add: download_returns_def downloaded_def eval_defs)
  have e: "stat_ok (host ?st) (''42'' @ ''.svg'')" "\<not> has_file (files ?st) (''42'' @ ''.svg'')"
    "write_ok (host ?st) (files ?st) (''42'' @ ''.svg'') ''<svg/>''"
    by (simp_all add: has_file_def initial_def plain_host_def)
  have f: "files ?st = []" "files_with_generated_names ?st = 0"
    "files_with_original_names ?st = 0" "total_saved ?st = 0"
    by (simp_all add: initial_def)
  note t = falls_back_to_item_id [where remote="example_remote None" and src="?src" and st="?st"
      and ident="Some ''42''" and i="''42''" and q=True and dest="''42'' @ ''.svg''"]
  from t h have n: "fst (get_filename_from_headers (example_remote None) ?src ?st) = None"
    by blast
  from t n have r: "resolve_conflict (host ?st) (files ?st) ''42'' (''42'' @ ''.svg'') 1
                      = Some (''42'' @ ''.svg'')"
    using e by blast
  from t n r d e have
    "fst (save_item (example_remote None) True (Some ''42'') ?src ?st) = Finished
     \<and> files (snd (save_item (example_remote None) True (Some ''42'') ?src ?st))
         = files ?st @ [(''42'' @ ''.svg'', ''<svg/>'')]
     \<and> files_with_generated_names (snd (save_item (example_remote None) True (Some ''42'') ?src ?st))
         = files_with_generated_names ?st + 1
     \<and> total_saved (snd (save_item (example_remote None) True (Some ''42'') ?src ?st))
         = total_saved ?st + 1
     \<and> files_with_original_names (snd (save_item (example_remote None) True (Some ''42'') ?src ?st))
         = files_with_original_names ?st"
    by simp
  then show ?thesis using n by (simp add: f)
qed

text \<open>
  C9. However a run ends (normally, by an exception, or cut off by the bound
  on listing pages), the total of saved files is the number of files that
  kept their original name plus the number of files with a generated name.
  The total is also the number of files the run added to the output
  directory: every download that returned is counted once, and nothing else
  is.
\<close>

theorem counters_add_up:
  "total_saved (snd (main fuel remote a h fs))
     = files_with_original_names (snd (main fuel remote a h fs))
       + files_with_generated_names (snd (main fuel remote a h fs))
   \<and> length (files (snd (main fuel remote a h fs)))
     = length fs + total_saved (snd (main fuel remote a h fs))"
proof -
  have "tally (length fs) (initial h fs)" by (simp add: tally_def initial_def)
  then have t: "tally (length fs) (snd (scan_types fuel remote a scanned_types (initial h fs)))"
    by (rule scan_types_tally)
  obtain e st where s: "scan_types fuel remote a scanned_types (initial h fs) = (e, st)"
    by (cases "scan_types fuel remote a scanned_types (initial h fs)")
  have "tally (length fs) (snd (main fuel remote a h fs))"
    using t s summary_framed [of st] by (cases e) (simp_all add: main_def tally_framed)
  then show ?thesis by (simp add: tally_def)
qed

theorem counters_add_up_witness:
  "fst (main 3 (example_remote None) example_args plain_host []) = Finished
   \<and> total_saved (snd (main 3 (example_remote None) example_args plain_host [])) = 2
   \<and> files_with_original_names (snd (main 3 (example_remote None) example_args plain_host [])) = 0
   \<and> files_with_generated_names (snd (main 3 (example_remote None) example_args plain_host [])) = 2
   \<and> length (files (snd (main 3 (example_remote None) example_args plain_host []))) = 2"
  using counters_add_up [of 3 "example_remote None" example_args plain_host "[]"]
  by (simp add: example_run)

text \<open>
  C10, as the code has it. On a host whose standard output takes every
  line, two runs against the same remote side and the same output directory
  that differ only in the quiet flag end the same way, issue the same
  requests in the same order, leave the same files with the same contents and
  reach the same counters.
\<close>

theorem quiet_changes_printing_only:
  assumes "accepting h"
  shows
  "fst (main fuel remote (a\<lparr>quiet := True\<rparr>) h fs) = fst (main fuel remote (a\<lparr>quiet := False\<rparr>) h fs)
   \<and> trace (snd (main fuel remote (a\<lparr>quiet := True\<rparr>) h fs))
       = trace (snd (main fuel remote (a\<lparr>quiet := False\<rparr>) h fs))
   \<and> files (snd (main fuel remote (a\<lparr>quiet := True\<rparr>) h fs))
       = files (snd (main fuel remote (a\<lparr>quiet := False\<rparr>) h fs))
   \<and> total_saved (snd (main fuel remote (a\<lparr>quiet := True\<rparr>) h fs))
       = total_saved (snd (main fuel remote (a\<lparr>quiet := False\<rparr>) h fs))
   \<and> files_with_original_names (snd (main fuel remote (a\<lparr>quiet := True\<rparr>) h fs))
       = files_with_original_names (snd (main fuel remote (a\<lparr>quiet := False\<rparr>) h fs))
   \<and> files_with_generated_names (snd (main fuel remote (a\<lparr>quiet := True\<rparr>) h fs))
       = files_with_generated_names (snd (main fuel remote (a\<lparr>quiet := False\<rparr>) h fs))"
  using main_same [of "a\<lparr>quiet := True\<rparr>" "a\<lparr>quiet := False\<rparr>" h fuel remote fs] assms
  by (simp add: same_def)

theorem quiet_changes_printing_only_witness:
  "accepting plain_host
   \<and> fst (main 3 (example_remote None) (example_args\<lparr>quiet := False\<rparr>) plain_host []) = Finished
   \<and> files (snd (main 3 (example_remote None) (example_args\<lparr>quiet := False\<rparr>) plain_host []))
       = [(''42.svg'', ''<svg/>''), (''43.svg'', ''<svg/>'')]
   \<and> total_saved (snd (main 3 (example_remote None) (example_args\<lparr>quiet := False\<rparr>) plain_host [])) = 2
   \<and> length (trace (snd (main 3 (example_remote None) (example_args\<lparr>quiet := False\<rparr>) plain_host []))) = 18"
proof -
  have q: "example_args\<lparr>quiet := True\<rparr> = example_args" by (simp add: example_args_def)
  have acc: "accepting plain_host" by (simp add: accepting_def plain_host_def)
  let ?loud = "main 3 (example_remote None) (example_args\<lparr>quiet := False\<rparr>) plain_host []"
  let ?still = "main 3 (example_remote None) (example_args\<lparr>quiet := True\<rparr>) plain_host []"
  have "fst ?loud = fst ?still \<and> files (snd ?loud) = files (snd ?still)
        \<and> total_saved (snd ?loud) = total_saved (snd ?still)
        \<and> trace (snd ?loud) = trace (snd ?still)"
    using quiet_changes_printing_only [OF acc, of 3 "example_remote None" example_args "[]"]
    by simp
  then show ?thesis
    using acc by (simp add: q example_run)
qed

text \<open>
  C10 as stated fails on a host whose standard output cannot encode the
  check mark. With the flag the sample run saves two files. Without it the
  \<^verbatim>\<open>print\<close> of line 156 raises inside the \<^verbatim>\<open>try\<close> block at the third
  candidate of the first item, the \<^verbatim>\<open>print\<close> of the handler (line 165)
  raises in turn, and the run ends there: four requests, no file.
\<close>

theorem quiet_changes_outcome:
  "main 3 (example_remote None) (example_args\<lparr>quiet := True\<rparr>) cp1252_host [] =
     (Finished,
      \<lparr>trace =
         [GET ''https://api.miro.com/v2/boards/b/items?type=app_card&limit=50'',
          GET ''https://api.miro.com/v2/boards/b/items?type=frame&limit=50'',
          GET ''https://api.miro.com/v2/boards/b/items?type=text&limit=50'',
          GET ''https://api.miro.com/v2/boards/b/items?type=sticky_note&limit=50'',
          GET ''https://api.miro.com/v2/boards/b/items?type=shape&limit=50'',
          GET ''https://api.miro.com/v2/boards/b/items?type=document&limit=50'',
          GET ''https://api.miro.com/v2/boards/b/items?cursor=c1'',
          GET ''https://r/x?format=original'',
          HEAD ''https://r/x?format=original'',
          GET ''https://r/x?format=original'',
          GET ''https://r/x?redirect=true'',
          GET ''https://r/x?format=original&redirect=true'',
          GET ''https://r/x?format=original'',
          HEAD ''https://r/x?format=original'',
          GET ''https://r/x?format=original'',
          GET ''https://r/x?redirect=true'',
          GET ''https://r/x?format=original&redirect=true'',
          GET ''https://api.miro.com/v2/boards/b/items?type=image&limit=50''],
       files = [(''42.svg'', ''<svg/>''), (''43.svg'', ''<svg/>'')],
       printed =
         [UsedGenerated 2, KeptOriginal 0, Done 2, TotalFound ''app_card'' 0,
          Scanning ''app_card'', TotalFound ''frame'' 0, Scanning ''frame'',
          TotalFound ''text'' 0, Scanning ''text'',
          TotalFound ''sticky_note'' 0, Scanning ''sticky_note'',
          TotalFound ''shape'' 0, Scanning ''shape'',
          TotalFound ''document'' 0, Scanning ''document'',
          TotalFound ''image'' 2, Scanning ''image''],
       total_saved = 2, files_with_original_names = 0,
       files_with_generated_names = 2, item_count = 0, host = cp1252_host\<rparr>)
   \<and> main 3 (example_remote None) (example_args\<lparr>quiet := False\<rparr>) cp1252_host [] =
     (Raised PrintFailed,
      \<lparr>trace =
         [GET ''https://r/x?format=original'',
          GET ''https://r/x?redirect=true'',
          GET ''https://r/x?format=original&redirect=true'',
          GET ''https://api.miro.com/v2/boards/b/items?type=image&limit=50''],
       files = [],
       printed =
         [Status 200 ''image/svg+xml'', Trying ''https://r/x?format=original'',
          ContentPreview (ustr ''<html>''), Status 200 ''text/html'',
          Trying ''https://r/x?redirect=true'',
          ContentPreview (ustr ''<html>''), Status 200 ''text/html'',
          Trying ''https://r/x?format=original&redirect=true'',
          Found ''image'' ''42'' ''https://r/x?sig=1'', Scanning ''image''],
       total_saved = 0, files_with_original_names = 0,
       files_with_generated_names = 0, item_count = 1, host = cp1252_host\<rparr>)"
  by (simp add: run_defs)

end
